theory Spec2Isabelle
  imports Complex_Main "HOL-Library.Multiset"
begin

section \<open>Card model\<close>

text \<open>
  The three enumerations and the \<open>Card\<close> dataclass of \<open>flip7_simulation.py\<close>.
  The optional payload fields keep their \<open>Optional[...]\<close> type: arithmetic on a
  field that is \<open>None\<close> raises \<open>TypeError\<close> in the source, and does so here.
\<close>

datatype CardType = NUMBER | ACTION | MODIFIER

datatype ActionType = FREEZE | FLIP_THREE | SECOND_CHANCE

datatype ModifierType = ADD | MULTIPLY

datatype error = TypeError | IndexError | ZeroDivisionError | NotImplementedError

record Card =
  id_c :: string
  card_type :: CardType
  value_c :: "int option"
  action_type :: "ActionType option"
  modifier_type :: "ModifierType option"
  modifier_value :: "int option"

section \<open>Players, hands and scoring\<close>

record Player =
  id_p :: string
  name_p :: string
  cards :: "Card list"
  score :: int
  round_score :: int
  is_active :: bool
  has_busted :: bool
  has_second_chance :: bool
  has_flip_three_active :: bool
  frozen_by :: "string option"

definition get_number_cards :: "Player \<Rightarrow> Card list" where
  "get_number_cards p = filter (\<lambda>c. card_type c = NUMBER) (cards p)"

definition get_modifier_cards :: "Player \<Rightarrow> Card list" where
  "get_modifier_cards p = filter (\<lambda>c. card_type c = MODIFIER) (cards p)"

definition get_action_cards :: "Player \<Rightarrow> Card list" where
  "get_action_cards p = filter (\<lambda>c. card_type c = ACTION) (cards p)"

definition get_number_values :: "Player \<Rightarrow> int option list" where
  "get_number_values p = map value_c (get_number_cards p)"

text \<open>Python's \<open>sum\<close>: a running total from 0; adding \<open>None\<close> raises.\<close>

fun py_sum :: "int \<Rightarrow> int option list \<Rightarrow> error + int" where
  "py_sum tot [] = Inr tot"
| "py_sum tot (None # xs) = Inl TypeError"
| "py_sum tot (Some v # xs) = py_sum (tot + v) xs"

text \<open>The two loops of \<open>calculate_score\<close> over the modifier cards.\<close>

fun apply_multiply :: "int \<Rightarrow> Card list \<Rightarrow> error + int" where
  "apply_multiply tot [] = Inr tot"
| "apply_multiply tot (c # rest) =
     (if modifier_type c = Some MULTIPLY then
        (case modifier_value c of
           None \<Rightarrow> Inl TypeError
         | Some m \<Rightarrow> apply_multiply (tot * m) rest)
      else apply_multiply tot rest)"

fun apply_add :: "int \<Rightarrow> Card list \<Rightarrow> error + int" where
  "apply_add tot [] = Inr tot"
| "apply_add tot (c # rest) =
     (if modifier_type c = Some ADD then
        (case modifier_value c of
           None \<Rightarrow> Inl TypeError
         | Some a \<Rightarrow> apply_add (tot + a) rest)
      else apply_add tot rest)"

definition calculate_score :: "Player \<Rightarrow> bool \<Rightarrow> error + int" where
  "calculate_score p is_flip7 =
     (case py_sum 0 (get_number_values p) of
        Inl e \<Rightarrow> Inl e
      | Inr total1 \<Rightarrow>
          (case apply_multiply total1 (get_modifier_cards p) of
             Inl e \<Rightarrow> Inl e
           | Inr total2 \<Rightarrow>
               (case apply_add total2 (get_modifier_cards p) of
                  Inl e \<Rightarrow> Inl e
                | Inr total3 \<Rightarrow> Inr (if is_flip7 then total3 + 15 else total3))))"

definition has_flip7 :: "Player \<Rightarrow> bool" where
  "has_flip7 p = (card (set (get_number_values p)) = 7)"

definition would_bust :: "Player \<Rightarrow> Card \<Rightarrow> bool" where
  "would_bust p new_card =
     (if card_type new_card \<noteq> NUMBER then False
      else value_c new_card \<in> set (get_number_values p))"


section \<open>Randomness and card identifiers\<close>

text \<open>
  Python's global \<open>random\<close> module. The outcome of the \<open>k\<close>-th call made to it is
  read from a random source \<open>R\<close>; the number of calls made so far is kept beside the
  game state (field \<open>rng\<close>). Every sequence of outcomes is some \<open>R\<close>.
\<close>

record Random =
  shuffle :: "nat \<Rightarrow> Card list \<Rightarrow> Card list"
  randint :: "nat \<Rightarrow> int \<Rightarrow> int \<Rightarrow> int"

text \<open>What the library promises: a shuffle permutes, \<open>randint(a, b)\<close> lies in \<open>[a, b]\<close>.\<close>

definition random_ok :: "Random \<Rightarrow> bool" where
  "random_ok R =
     ((\<forall>k xs. mset (shuffle R k xs) = mset xs) \<and>
      (\<forall>k a b. a \<le> b \<longrightarrow> a \<le> randint R k a b \<and> randint R k a b \<le> b))"

text \<open>\<open>str\<close> of an integer, for the f-strings that build identifiers.\<close>

fun str_nat :: "nat \<Rightarrow> string" where
  "str_nat n =
     (if n < 10 then [char_of (48 + n)]
      else str_nat (n div 10) @ [char_of (48 + n mod 10)])"

definition str_int :: "int \<Rightarrow> string" where
  "str_int i = (if i < 0 then CHR ''-'' # str_nat (nat (- i)) else str_nat (nat i))"

section \<open>Deck construction\<close>

definition number_card :: "string \<Rightarrow> int \<Rightarrow> Card" where
  "number_card ident v =
     \<lparr>id_c = ident, card_type = NUMBER, value_c = Some v, action_type = None,
      modifier_type = None, modifier_value = None\<rparr>"

definition modifier_card :: "string \<Rightarrow> ModifierType \<Rightarrow> int \<Rightarrow> Card" where
  "modifier_card ident mt mod_value =
     \<lparr>id_c = ident, card_type = MODIFIER, value_c = None, action_type = None,
      modifier_type = Some mt, modifier_value = Some mod_value\<rparr>"

definition action_card :: "string \<Rightarrow> ActionType \<Rightarrow> Card" where
  "action_card ident action =
     \<lparr>id_c = ident, card_type = ACTION, value_c = None, action_type = Some action,
      modifier_type = None, modifier_value = None\<rparr>"

text \<open>
  The body of each innermost loop of \<open>create_deck\<close>, on the pair of the deck built
  so far and the running \<open>card_id\<close>.
\<close>

definition append_number :: "int \<Rightarrow> Card list \<times> int \<Rightarrow> Card list \<times> int" where
  "append_number v st =
     (fst st @ [number_card (''card_'' @ str_int (snd st)) v], snd st + 1)"

definition append_modifier :: "ModifierType \<Rightarrow> int \<Rightarrow> Card list \<times> int \<Rightarrow> Card list \<times> int" where
  "append_modifier mt mod_value st =
     (fst st @ [modifier_card (''card_'' @ str_int (snd st)) mt mod_value], snd st + 1)"

definition append_action :: "ActionType \<Rightarrow> Card list \<times> int \<Rightarrow> Card list \<times> int" where
  "append_action action st =
     (fst st @ [action_card (''card_'' @ str_int (snd st)) action], snd st + 1)"

text \<open>One pass of the outer loop \<open>for _ in range(num_decks)\<close>.\<close>

definition deck_copy :: "Card list \<times> int \<Rightarrow> Card list \<times> int" where
  "deck_copy st =
     (let st1 = fold (\<lambda>v. append_number (int v) ^^ (if v > 0 then v else 1)) [0..<13] st;
          st2 = fold (\<lambda>mod_value. append_modifier ADD mod_value ^^ 3) [2, 4, 6, 8, 10] st1;
          st3 = append_modifier MULTIPLY 2 st2
      in fold (\<lambda>action. append_action action ^^ 3) [FREEZE, FLIP_THREE, SECOND_CHANCE] st3)"

definition num_decks_for :: "int \<Rightarrow> int" where
  "num_decks_for num_players = max 2 ((num_players + 2) div 3)"

text \<open>\<open>create_deck\<close> makes one call to \<open>random.shuffle\<close>, the \<open>k\<close>-th of the run.\<close>

definition create_deck :: "Random \<Rightarrow> nat \<Rightarrow> int \<Rightarrow> Card list" where
  "create_deck R k num_players =
     shuffle R k (fst ((deck_copy ^^ nat (num_decks_for num_players)) ([], 0)))"

section \<open>Game state and drawing\<close>

text \<open>
  \<open>winner\<close> refers to one of the player objects of \<open>players\<close>: it is kept as that
  player's position in the list. \<open>rng\<close> counts the calls made to \<open>random\<close>.
\<close>

record GameState =
  players :: "Player list"
  deck :: "Card list"
  discard_pile :: "Card list"
  current_player_idx :: nat
  dealer_idx :: nat
  round_number :: nat
  game_over :: bool
  winner :: "nat option"
  rng :: nat

definition get_active_players :: "GameState \<Rightarrow> Player list" where
  "get_active_players s = filter is_active (players s)"

definition get_current_player :: "GameState \<Rightarrow> error + Player" where
  "get_current_player s =
     (if current_player_idx s < length (players s)
      then Inr (players s ! current_player_idx s) else Inl IndexError)"

text \<open>
  \<open>next_player\<close>: a \<open>while True\<close> loop, left only at an active player or back at
  the start index. \<open>None\<close> is the loop that never leaves.
\<close>

partial_function (option) next_player_loop :: "nat \<Rightarrow> GameState \<Rightarrow> (error + GameState) option" where
  "next_player_loop start_idx s =
     (if length (players s) = 0 then Some (Inl ZeroDivisionError)
      else if is_active (players s ! ((current_player_idx s + 1) mod length (players s)))
        then Some (Inr (s\<lparr>current_player_idx := (current_player_idx s + 1) mod length (players s)\<rparr>))
      else if (current_player_idx s + 1) mod length (players s) = start_idx
        then Some (Inr (s\<lparr>current_player_idx := (current_player_idx s + 1) mod length (players s)\<rparr>))
      else next_player_loop start_idx
             (s\<lparr>current_player_idx := (current_player_idx s + 1) mod length (players s)\<rparr>))"

declare next_player_loop.simps [code]

definition next_player :: "GameState \<Rightarrow> (error + GameState) option" where
  "next_player s = next_player_loop (current_player_idx s) s"

text \<open>The emergency deck of \<open>draw_card\<close>: identifiers \<open>em_<card_id>\<close>.\<close>

definition append_emergency :: "int \<Rightarrow> Card list \<times> int \<Rightarrow> Card list \<times> int" where
  "append_emergency v st =
     (fst st @ [number_card (''em_'' @ str_int (snd st)) v], snd st + 1)"

definition mini_deck :: "int \<Rightarrow> Card list" where
  "mini_deck card_id =
     fst (fold (\<lambda>v. append_emergency (int v) ^^ (max 1 (v div 2))) [0..<13] ([], card_id))"

text \<open>
  \<open>draw_card\<close>: refill from the discard pile, then from an emergency deck, then
  \<open>self.deck.pop()\<close>, which takes the last card and raises on an empty list.
\<close>

definition refill_from_discard :: "Random \<Rightarrow> GameState \<Rightarrow> GameState" where
  "refill_from_discard R s =
     (if deck s = [] \<and> discard_pile s \<noteq> []
      then s\<lparr>deck := shuffle R (rng s) (discard_pile s), discard_pile := [], rng := rng s + 1\<rparr>
      else s)"

definition refill_emergency :: "Random \<Rightarrow> GameState \<Rightarrow> GameState" where
  "refill_emergency R s =
     (if deck s = []
      then s\<lparr>deck := shuffle R (rng s + 1) (mini_deck (randint R (rng s) 10000 99999)),
             rng := rng s + 2\<rparr>
      else s)"

definition draw_card :: "Random \<Rightarrow> GameState \<Rightarrow> error + (Card \<times> GameState)" where
  "draw_card R s =
     (let s2 = refill_emergency R (refill_from_discard R s)
      in if deck s2 = [] then Inl IndexError
         else Inr (last (deck s2), s2\<lparr>deck := butlast (deck s2)\<rparr>))"

section \<open>Bot strategies\<close>

text \<open>
  A strategy is its name and its \<open>should_hit\<close> override; the base class raises
  \<open>NotImplementedError\<close>.
\<close>

record BotStrategy =
  name :: string
  should_hit :: "Player \<Rightarrow> GameState \<Rightarrow> error + bool"

definition BotStrategy_base :: "string \<Rightarrow> BotStrategy" where
  "BotStrategy_base n = \<lparr>name = n, should_hit = (\<lambda>player game_state. Inl NotImplementedError)\<rparr>"

text \<open>
  Python floats are read as the real numbers they denote (finite doubles; no NaN, no
  infinity). The exact result of each float operation passes through \<open>rnd\<close>, the
  rounding of the machine, which is a parameter: nothing below depends on how results
  round. \<open>int(x)\<close> truncates towards zero.
\<close>

definition py_int :: "real \<Rightarrow> int" where
  "py_int x = (if x \<ge> 0 then \<lfloor>x\<rfloor> else \<lceil>x\<rceil>)"

text \<open>\<open>sum\<close> over a set of number values; adding \<open>None\<close> raises.\<close>

definition py_sum_set :: "int option set \<Rightarrow> error + int" where
  "py_sum_set vs = (if None \<in> vs then Inl TypeError else Inr (\<Sum>v\<in>vs. the v))"

definition BustProbabilityStrategy_should_hit ::
    "(real \<Rightarrow> real) \<Rightarrow> real \<Rightarrow> bool \<Rightarrow> Player \<Rightarrow> GameState \<Rightarrow> error + bool" where
  "BustProbabilityStrategy_should_hit rnd max_bust_prob second_chance_aware player game_state =
     (let my_numbers = set (get_number_values player);
          total_deck_size = length (deck game_state) + length (discard_pile game_state)
      in if total_deck_size = 0 then Inr False
         else
           (let total_number_cards = (\<Sum>v\<leftarrow>[0..<13]. int v)
            in case py_sum_set my_numbers of
                 Inl e \<Rightarrow> Inl e
               | Inr bust_cards \<Rightarrow>
                   (let bust_prob =
                          (if total_number_cards > 0
                           then rnd (real_of_int bust_cards / real_of_int total_number_cards)
                           else 0);
                        effective_threshold =
                          (if second_chance_aware \<and> has_second_chance player
                           then min 1 (rnd (max_bust_prob * 2))
                           else max_bust_prob)
                    in Inr (bust_prob \<le> effective_threshold))))"

definition BustProbabilityStrategy :: "(real \<Rightarrow> real) \<Rightarrow> real \<Rightarrow> bool \<Rightarrow> BotStrategy" where
  "BustProbabilityStrategy rnd max_bust_probability second_chance_aware =
     \<lparr>name = ''BustProb_'' @ str_int (py_int (rnd (max_bust_probability * 100))) @ ''%''
              @ (if second_chance_aware then ''_SC'' else []),
      should_hit = BustProbabilityStrategy_should_hit rnd max_bust_probability second_chance_aware\<rparr>"

definition CardCountStrategy :: "int \<Rightarrow> bool \<Rightarrow> BotStrategy" where
  "CardCountStrategy target_card_count second_chance_aware =
     \<lparr>name = ''CardCount_'' @ str_int target_card_count
              @ (if second_chance_aware then ''_SC'' else []),
      should_hit = (\<lambda>player game_state.
        (let num_cards = int (length (get_number_cards player));
             effective_target =
               (if second_chance_aware \<and> has_second_chance player
                then target_card_count + 1 else target_card_count)
         in Inr (num_cards < effective_target)))\<rparr>"

definition PointThresholdStrategy :: "int \<Rightarrow> BotStrategy" where
  "PointThresholdStrategy target_points =
     \<lparr>name = ''PointThreshold_'' @ str_int target_points,
      should_hit = (\<lambda>player game_state.
        (case calculate_score player False of
           Inl e \<Rightarrow> Inl e
         | Inr current_score \<Rightarrow> Inr (current_score < target_points)))\<rparr>"

section \<open>The game engine\<close>

text \<open>
  The engine of \<open>Flip7Game\<close> with \<open>verbose = False\<close> (printing is not modelled).
  A player object handed to a method is its position \<open>i\<close> in \<open>players\<close>.
\<close>

definition new_player :: "nat \<Rightarrow> BotStrategy \<Rightarrow> Player" where
  "new_player i strategy =
     \<lparr>id_p = ''player_'' @ str_nat i, name_p = name strategy, cards = [], score = 0,
      round_score = 0, is_active = True, has_busted = False, has_second_chance = False,
      has_flip_three_active = False, frozen_by = None\<rparr>"

definition initialize_game :: "Random \<Rightarrow> BotStrategy list \<Rightarrow> nat \<Rightarrow> error + GameState" where
  "initialize_game R strategies rng0 =
     (let ps = map (\<lambda>(i, strategy). new_player i strategy) (enumerate 0 strategies);
          d = create_deck R rng0 (int (length ps))
      in if length ps = 0 then Inl ZeroDivisionError
         else Inr \<lparr>players = ps, deck = d, discard_pile = [],
                   current_player_idx = 1 mod length ps, dealer_idx = 0, round_number = 1,
                   game_over = False, winner = None, rng = rng0 + 1\<rparr>)"

text \<open>
  Appending a card to a hand and setting the flag of an action card: the same lines
  close \<open>deal_initial_cards\<close> and the body of the hit loop.
\<close>

definition take_card :: "Player \<Rightarrow> Card \<Rightarrow> Player" where
  "take_card player c =
     (let p1 = player\<lparr>cards := cards player @ [c]\<rparr>
      in if card_type c = ACTION then
           (if action_type c = Some SECOND_CHANCE then p1\<lparr>has_second_chance := True\<rparr>
            else if action_type c = Some FLIP_THREE then p1\<lparr>has_flip_three_active := True\<rparr>
            else p1)
         else p1)"

fun deal_initial_loop :: "Random \<Rightarrow> nat list \<Rightarrow> GameState \<Rightarrow> error + GameState" where
  "deal_initial_loop R [] s = Inr s"
| "deal_initial_loop R (i # rest) s =
     (case draw_card R s of
        Inl e \<Rightarrow> Inl e
      | Inr (c, s1) \<Rightarrow>
          deal_initial_loop R rest
            (s1\<lparr>players := (players s1)[i := take_card (players s1 ! i) c]\<rparr>))"

definition deal_initial_cards :: "Random \<Rightarrow> GameState \<Rightarrow> error + GameState" where
  "deal_initial_cards R s = deal_initial_loop R [0..<length (players s)] s"

text \<open>
  The loop \<open>for i in range(num_cards)\<close> of \<open>play_turn\<close>, by the number of draws
  left. The flag of the result tells whether the loop was left by the bust's
  \<open>return True\<close>.
\<close>

fun hit_batch :: "Random \<Rightarrow> nat \<Rightarrow> nat \<Rightarrow> GameState \<Rightarrow> error + (bool \<times> GameState)" where
  "hit_batch R i 0 s = Inr (False, s)"
| "hit_batch R i (Suc n) s =
     (case draw_card R s of
        Inl e \<Rightarrow> Inl e
      | Inr (c, s1) \<Rightarrow>
          (if would_bust (players s1 ! i) c then
             (if has_second_chance (players s1 ! i) then
                hit_batch R i n
                  (s1\<lparr>players := (players s1)[i := (players s1 ! i)\<lparr>has_second_chance := False\<rparr>],
                      discard_pile := discard_pile s1 @ [c]\<rparr>)
              else
                Inr (True,
                  s1\<lparr>players := (players s1)[i := (players s1 ! i)
                        \<lparr>has_busted := True, is_active := False, round_score := 0\<rparr>]\<rparr>))
           else
             hit_batch R i n (s1\<lparr>players := (players s1)[i := take_card (players s1 ! i) c]\<rparr>)))"

text \<open>
  \<open>player.round_score = player.calculate_score(...); player.is_active = False\<close>,
  the three places where \<open>play_turn\<close> banks a score.
\<close>

definition bank_score :: "bool \<Rightarrow> nat \<Rightarrow> GameState \<Rightarrow> error + GameState" where
  "bank_score is_flip7 i s =
     (case calculate_score (players s ! i) is_flip7 of
        Inl e \<Rightarrow> Inl e
      | Inr sc \<Rightarrow>
          Inr (s\<lparr>players := (players s)[i := (players s ! i)\<lparr>round_score := sc, is_active := False\<rparr>]\<rparr>))"

text \<open>
  \<open>play_turn\<close>. A position outside \<open>players\<close> stands for no player object: the
  caller's \<open>get_current_player\<close> has raised \<open>IndexError\<close> by then, and so does
  the model.
\<close>

definition play_turn :: "Random \<Rightarrow> BotStrategy \<Rightarrow> nat \<Rightarrow> GameState \<Rightarrow> error + (bool \<times> GameState)" where
  "play_turn R strategy i s =
     (if length (players s) \<le> i then Inl IndexError
      else if \<not> is_active (players s ! i) then Inr (True, s)
      else if has_flip7 (players s ! i) then
        (case bank_score True i s of Inl e \<Rightarrow> Inl e | Inr s1 \<Rightarrow> Inr (False, s1))
      else if length (get_number_cards (players s ! i)) \<ge> 10 then
        (case bank_score False i s of Inl e \<Rightarrow> Inl e | Inr s1 \<Rightarrow> Inr (True, s1))
      else
        (case should_hit strategy (players s ! i) s of
           Inl e \<Rightarrow> Inl e
         | Inr hit \<Rightarrow>
             if \<not> hit then
               (case bank_score False i s of Inl e \<Rightarrow> Inl e | Inr s1 \<Rightarrow> Inr (True, s1))
             else
               (let num_cards = (if has_flip_three_active (players s ! i) then 3 else 1)
                in case hit_batch R i num_cards s of
                     Inl e \<Rightarrow> Inl e
                   | Inr (busted, s1) \<Rightarrow>
                       if busted then Inr (True, s1)
                       else if has_flip7 (players s1 ! i) then
                         (case bank_score True i s1 of
                            Inl e \<Rightarrow> Inl e
                          | Inr s2 \<Rightarrow> Inr (False, s2))
                       else if num_cards = 3 then
                         Inr (True,
                           s1\<lparr>players := (players s1)[i := (players s1 ! i)
                                 \<lparr>has_flip_three_active := False\<rparr>]\<rparr>)
                       else Inr (True, s1))))"

definition reset_player :: "Player \<Rightarrow> Player" where
  "reset_player p =
     p\<lparr>cards := [], is_active := True, has_busted := False, has_second_chance := False,
       has_flip_three_active := False, round_score := 0\<rparr>"

definition add_round_scores :: "GameState \<Rightarrow> GameState" where
  "add_round_scores s = s\<lparr>players := map (\<lambda>p. p\<lparr>score := score p + round_score p\<rparr>) (players s)\<rparr>"

text \<open>
  The \<open>while\<close> loop of \<open>play_round\<close>, bounded by \<open>max_turns = 100\<close>. The current
  player and the current strategy are read by index, which raises out of range.
\<close>

function round_loop :: "Random \<Rightarrow> BotStrategy list \<Rightarrow> nat \<Rightarrow> GameState \<Rightarrow> (error + GameState) option" where
  "round_loop R strategies turn_count s =
     (if (\<exists>p \<in> set (players s). is_active p) \<and> turn_count < 100 then
        (if length (players s) \<le> current_player_idx s then Some (Inl IndexError)
         else if length strategies \<le> current_player_idx s then Some (Inl IndexError)
         else
           (case play_turn R (strategies ! current_player_idx s) (current_player_idx s) s of
              Inl e \<Rightarrow> Some (Inl e)
            | Inr (round_continues, s1) \<Rightarrow>
                if \<not> round_continues then Some (Inr s1)
                else
                  (case next_player s1 of
                     None \<Rightarrow> None
                   | Some (Inl e) \<Rightarrow> Some (Inl e)
                   | Some (Inr s2) \<Rightarrow> round_loop R strategies (turn_count + 1) s2)))
      else Some (Inr s))"
  by pat_completeness auto
termination
  by (relation "measure (\<lambda>(R, strategies, turn_count, s). 100 - turn_count)") auto

declare round_loop.simps [simp del]

definition play_round :: "Random \<Rightarrow> BotStrategy list \<Rightarrow> GameState \<Rightarrow> (error + GameState) option" where
  "play_round R strategies s =
     (case deal_initial_cards R (s\<lparr>players := map reset_player (players s)\<rparr>) of
        Inl e \<Rightarrow> Some (Inl e)
      | Inr s1 \<Rightarrow>
          (case round_loop R strategies 0 s1 of
             None \<Rightarrow> None
           | Some (Inl e) \<Rightarrow> Some (Inl e)
           | Some (Inr s2) \<Rightarrow> Some (Inr (add_round_scores s2))))"

text \<open>The winner check of \<open>play_game\<close>: the first player, in list order, at 200 or more.\<close>

fun find_winner :: "nat \<Rightarrow> Player list \<Rightarrow> nat option" where
  "find_winner i [] = None"
| "find_winner i (p # ps) = (if score p \<ge> 200 then Some i else find_winner (i + 1) ps)"

definition next_round :: "GameState \<Rightarrow> GameState" where
  "next_round s =
     s\<lparr>round_number := round_number s + 1,
       dealer_idx := (dealer_idx s + 1) mod length (players s),
       current_player_idx := ((dealer_idx s + 1) mod length (players s) + 1) mod length (players s)\<rparr>"

text \<open>
  The loop \<open>while not game_over\<close> of \<open>play_game\<close>; it returns the winner and the
  final state. \<open>None\<close> is the match that never ends.
\<close>

partial_function (option) play_game_loop ::
    "Random \<Rightarrow> BotStrategy list \<Rightarrow> GameState \<Rightarrow> (error + (nat option \<times> GameState)) option" where
  "play_game_loop R strategies s =
     (if game_over s then Some (Inr (winner s, s))
      else
        (case play_round R strategies s of
           None \<Rightarrow> None
         | Some (Inl e) \<Rightarrow> Some (Inl e)
         | Some (Inr s1) \<Rightarrow>
             (case find_winner 0 (players s1) of
                Some w \<Rightarrow> Some (Inr (Some w, s1\<lparr>game_over := True, winner := Some w\<rparr>))
              | None \<Rightarrow>
                  if length (players s1) = 0 then Some (Inl ZeroDivisionError)
                  else play_game_loop R strategies (next_round s1))))"

declare play_game_loop.simps [code]

definition play_game :: "Random \<Rightarrow> BotStrategy list \<Rightarrow> nat \<Rightarrow> (error + (nat option \<times> GameState)) option" where
  "play_game R strategies rng0 =
     (case initialize_game R strategies rng0 of
        Inl e \<Rightarrow> Some (Inl e)
      | Inr s \<Rightarrow> play_game_loop R strategies s)"

section \<open>Properties of the specification\<close>

subsection \<open>Well-formed cards\<close>

text \<open>
  A card can be scored when the payload its kind needs is there: a number card has a
  value, a modifier card of either kind has an amount.
\<close>

definition scorable :: "Card \<Rightarrow> bool" where
  "scorable c =
     ((card_type c = NUMBER \<longrightarrow> value_c c \<noteq> None) \<and>
      (card_type c = MODIFIER \<and> modifier_type c \<noteq> None \<longrightarrow> modifier_value c \<noteq> None))"

subsection \<open>The score as the specification words it\<close>

definition number_amounts :: "Card list \<Rightarrow> int list" where
  "number_amounts hand = map (\<lambda>c. the (value_c c)) (filter (\<lambda>c. card_type c = NUMBER) hand)"

definition multiply_amounts :: "Card list \<Rightarrow> int list" where
  "multiply_amounts hand =
     map (\<lambda>c. the (modifier_value c))
       (filter (\<lambda>c. card_type c = MODIFIER \<and> modifier_type c = Some MULTIPLY) hand)"

definition add_amounts :: "Card list \<Rightarrow> int list" where
  "add_amounts hand =
     map (\<lambda>c. the (modifier_value c))
       (filter (\<lambda>c. card_type c = MODIFIER \<and> modifier_type c = Some ADD) hand)"

text \<open>
  Sum of the number values, times each Multiply amount in hand order, plus each Add
  amount in hand order, plus 15 for a Flip 7.
\<close>

definition score_spec :: "Card list \<Rightarrow> bool \<Rightarrow> int" where
  "score_spec hand is_flip7 =
     foldl (+) (foldl (*) (sum_list (number_amounts hand)) (multiply_amounts hand))
       (add_amounts hand)
     + (if is_flip7 then 15 else 0)"

subsection \<open>Concrete inputs\<close>

text \<open>A player of a running round holding the given hand, and small states around it.\<close>

definition player_holding :: "Card list \<Rightarrow> Player" where
  "player_holding hand =
     \<lparr>id_p = ''player_0'', name_p = ''bot'', cards = hand, score = 0, round_score = 0,
      is_active = True, has_busted = False, has_second_chance = False,
      has_flip_three_active = False, frozen_by = None\<rparr>"

definition num :: "int \<Rightarrow> Card" where
  "num v = number_card ''card_0'' v"

definition hand_10_add4_x2 :: "Card list" where
  "hand_10_add4_x2 =
     [num 4, modifier_card ''card_90'' ADD 4, num 6, modifier_card ''card_94'' MULTIPLY 2]"

subsection \<open>Deck composition\<close>

text \<open>
  Cards are compared up to their identifier: \<open>face c\<close> is the card \<open>c\<close> with the
  identifier blanked, and the faces of the three kinds are named.
\<close>

definition face :: "Card \<Rightarrow> Card" where
  "face c = c\<lparr>id_c := []\<rparr>"

definition Number :: "int \<Rightarrow> Card" where
  "Number v = number_card [] v"

definition Modifier :: "ModifierType \<Rightarrow> int \<Rightarrow> Card" where
  "Modifier mt a = modifier_card [] mt a"

definition Action :: "ActionType \<Rightarrow> Card" where
  "Action a = action_card [] a"

text \<open>
  The base deck as the specification lists it: \<open>v\<close> number cards of each value \<open>v\<close>
  from 1 to 12 and one of value 0; three Add cards of each amount 2, 4, 6, 8, 10; one
  Multiply x2; three action cards of each kind.
\<close>

definition base_deck_spec :: "Card multiset" where
  "base_deck_spec =
     (\<Sum>v \<in> {1..12::nat}. replicate_mset v (Number (int v))) + {#Number 0#}
     + (\<Sum>a \<in> {2, 4, 6, 8, 10}. replicate_mset 3 (Modifier ADD a))
     + {#Modifier MULTIPLY 2#}
     + (\<Sum>a \<in> {FREEZE, FLIP_THREE, SECOND_CHANCE}. replicate_mset 3 (Action a))"

text \<open>
  The emergency deck as the specification lists it: number cards only, \<open>max(1, v div 2)\<close>
  of each value \<open>v\<close> from 0 to 12.
\<close>

definition emergency_deck_spec :: "Card multiset" where
  "emergency_deck_spec = (\<Sum>v \<in> {0..12::nat}. replicate_mset (max 1 (v div 2)) (Number (int v)))"

text \<open>The deck count as the specification states it, and as the docstring does.\<close>

definition deck_count_spec :: "int \<Rightarrow> int" where
  "deck_count_spec player_count = max 2 \<lceil>(real_of_int player_count + 2) / 3\<rceil>"

text \<open>A random source that leaves every list as it is and answers the lower bound.\<close>

definition R_id :: Random where
  "R_id = \<lparr>shuffle = (\<lambda>k xs. xs), randint = (\<lambda>k a b. a)\<rparr>"

text \<open>The faces of one pass of the deck-building loop, in the order it appends them.\<close>

definition base_list :: "Card list" where
  "base_list =
     concat (map (\<lambda>v. replicate (if v > 0 then v else 1) (Number (int v))) [0..<13])
     @ concat (map (\<lambda>a. replicate 3 (Modifier ADD a)) [2, 4, 6, 8, 10])
     @ [Modifier MULTIPLY 2]
     @ concat (map (\<lambda>a. replicate 3 (Action a)) [FREEZE, FLIP_THREE, SECOND_CHANCE])"

text \<open>A state of a running match with the given players, deck and discard pile.\<close>

definition table :: "Player list \<Rightarrow> Card list \<Rightarrow> Card list \<Rightarrow> GameState" where
  "table ps d dp =
     \<lparr>players = ps, deck = d, discard_pile = dp, current_player_idx = 0, dealer_idx = 0,
      round_number = 1, game_over = False, winner = None, rng = 0\<rparr>"

text \<open>The same player holding an unconsumed Second Chance.\<close>

definition protected :: "Player \<Rightarrow> Player" where
  "protected p = p\<lparr>has_second_chance := True\<rparr>"

text \<open>Hands of six, seven and ten number cards of distinct values.\<close>

definition six_cards :: "Card list" where
  "six_cards = [num 0, num 1, num 2, num 3, num 4, num 5]"

definition seven_cards :: "Card list" where
  "seven_cards = six_cards @ [num 6]"

definition ten_cards :: "Card list" where
  "ten_cards = seven_cards @ [num 7, num 8, num 9]"

subsection \<open>Invariants of a round\<close>

text \<open>
  \<open>pool C s\<close>: every card of the deck and of the discard pile satisfies \<open>C\<close>.
  \<open>seats Q s\<close>: the player at each position \<open>j\<close> satisfies \<open>Q j\<close>.
  \<open>turn_closed Q C\<close>: \<open>Q\<close> survives each way a turn changes a player (Second Chance
  consumed, bust, a card that does not bust taken into the hand, score banked, Flip
  Three cleared), and the emergency deck satisfies \<open>C\<close>.
\<close>

definition pool :: "(Card \<Rightarrow> bool) \<Rightarrow> GameState \<Rightarrow> bool" where
  "pool C s = (\<forall>c \<in> set (deck s) \<union> set (discard_pile s). C c)"

definition seats :: "(nat \<Rightarrow> Player \<Rightarrow> bool) \<Rightarrow> GameState \<Rightarrow> bool" where
  "seats Q s = (\<forall>j < length (players s). Q j (players s ! j))"

definition turn_closed :: "(nat \<Rightarrow> Player \<Rightarrow> bool) \<Rightarrow> (Card \<Rightarrow> bool) \<Rightarrow> bool" where
  "turn_closed Q C =
     ((\<forall>j p. Q j p \<longrightarrow> Q j (p\<lparr>has_second_chance := False\<rparr>)) \<and>
      (\<forall>j p. Q j p \<longrightarrow> Q j (p\<lparr>has_busted := True, is_active := False, round_score := 0\<rparr>)) \<and>
      (\<forall>j p c. Q j p \<and> \<not> would_bust p c \<and> C c \<longrightarrow> Q j (take_card p c)) \<and>
      (\<forall>j p f sc. Q j p \<and> calculate_score p f = Inr sc \<longrightarrow>
                   Q j (p\<lparr>round_score := sc, is_active := False\<rparr>)) \<and>
      (\<forall>j p. Q j p \<longrightarrow> Q j (p\<lparr>has_flip_three_active := False\<rparr>)) \<and>
      (\<forall>k. \<forall>c \<in> set (mini_deck k). C c))"

text \<open>\<open>shuffle_keeps R C\<close>: a shuffled list of cards that satisfy \<open>C\<close> holds only such cards.\<close>

definition shuffle_keeps :: "Random \<Rightarrow> (Card \<Rightarrow> bool) \<Rightarrow> bool" where
  "shuffle_keeps R C = (\<forall>k xs. (\<forall>x \<in> set xs. C x) \<longrightarrow> (\<forall>c \<in> set (shuffle R k xs). C c))"

text \<open>
  Two players at 195 and 199 points at the start of a round, a deck of two number
  cards, and the state in which that round ends when both stay on their first card.
\<close>

definition close_match :: GameState where
  "close_match =
     table [(player_holding [])\<lparr>score := 195\<rparr>, (player_holding [])\<lparr>score := 199\<rparr>]
       [num 9, num 7] []"

definition close_match_round :: GameState where
  "close_match_round =
     (table [(player_holding [num 7])\<lparr>score := 202, round_score := 7, is_active := False\<rparr>,
             (player_holding [num 9])\<lparr>score := 208, round_score := 9, is_active := False\<rparr>]
        [] [])\<lparr>current_player_idx := 1\<rparr>"

text \<open>
  The card invariant of the data model: a number card has a value from 0 to 12, an
  action card its kind, a modifier card is Add with amount 2, 4, 6, 8 or 10, or
  Multiply with amount 2.
\<close>

definition wf_card :: "Card \<Rightarrow> bool" where
  "wf_card c =
     (case card_type c of
        NUMBER \<Rightarrow> (case value_c c of None \<Rightarrow> False | Some v \<Rightarrow> 0 \<le> v \<and> v \<le> 12)
      | ACTION \<Rightarrow> action_type c \<noteq> None
      | MODIFIER \<Rightarrow>
          (case modifier_value c of
             None \<Rightarrow> False
           | Some a \<Rightarrow>
               (modifier_type c = Some ADD \<and> a \<in> {2, 4, 6, 8, 10}) \<or>
               (modifier_type c = Some MULTIPLY \<and> a = 2)))"

subsection \<open>Reachable states\<close>

text \<open>
  The states a match can be in: the state \<open>initialize_game\<close> builds; the state after
  the reset and the initial deal of \<open>play_round\<close> (from any state at all: the reset
  forgets the hands); and from a reachable state, the state after any number of draws
  of a hit batch, after a whole turn of any player with any strategy, after
  \<open>next_player\<close>, after the round scores are added, after the winner is set and after
  the bookkeeping for the next round.
\<close>

inductive reachable :: "Random \<Rightarrow> GameState \<Rightarrow> bool" for R :: Random where
  start: "initialize_game R strategies k = Inr s \<Longrightarrow> reachable R s"
| dealt: "deal_initial_cards R (s\<lparr>players := map reset_player (players s)\<rparr>) = Inr s' \<Longrightarrow>
          reachable R s'"
| hit: "reachable R s \<Longrightarrow> i < length (players s) \<Longrightarrow> hit_batch R i n s = Inr (b, s') \<Longrightarrow>
        reachable R s'"
| turn: "reachable R s \<Longrightarrow> play_turn R strategy i s = Inr (b, s') \<Longrightarrow> reachable R s'"
| moved: "reachable R s \<Longrightarrow> next_player s = Some (Inr s') \<Longrightarrow> reachable R s'"
| scored: "reachable R s \<Longrightarrow> reachable R (add_round_scores s)"
| won: "reachable R s \<Longrightarrow> reachable R (s\<lparr>game_over := True, winner := Some w\<rparr>)"
| advanced: "reachable R s \<Longrightarrow> reachable R (next_round s)"

text \<open>
  A round dealt from a deck of the number cards 6 down to 0 to one player who hits up
  to seven number cards, and the state in which its turns end.
\<close>

definition seven_deck_table :: GameState where
  "seven_deck_table =
     table [player_holding [num 9]] [num 6, num 5, num 4, num 3, num 2, num 1, num 0] []"

definition seven_held_table :: GameState where
  "seven_held_table =
     table [(player_holding seven_cards)\<lparr>round_score := 36, is_active := False\<rparr>] [] []"

subsection \<open>Rounds that return\<close>

text \<open>A strategy that answers, without raising, on every hand that can be scored.\<close>

definition answers :: "BotStrategy \<Rightarrow> bool" where
  "answers strategy =
     (\<forall>p g. (\<forall>c \<in> set (cards p). scorable c) \<longrightarrow> (\<exists>b. should_hit strategy p g = Inr b))"

subsection \<open>The forced stay\<close>

text \<open>
  The state after player \<open>i\<close> has stayed with the plain score: the round score is the
  score without the Flip 7 bonus, the player is inactive, nothing else has changed.
\<close>

definition stayed :: "nat \<Rightarrow> GameState \<Rightarrow> GameState" where
  "stayed i s =
     s\<lparr>players := (players s)[i := (players s ! i)
         \<lparr>round_score := score_spec (cards (players s ! i)) False, is_active := False\<rparr>]\<rparr>"




section \<open>Scoring\<close>

lemma py_sum_values:
  "\<forall>c \<in> set xs. value_c c \<noteq> None \<Longrightarrow>
   py_sum tot (map value_c xs) = Inr (tot + sum_list (map (\<lambda>c. the (value_c c)) xs))"
  by (induction xs arbitrary: tot) auto

lemma apply_multiply_foldl:
  "\<forall>c \<in> set xs. modifier_type c = Some MULTIPLY \<longrightarrow> modifier_value c \<noteq> None \<Longrightarrow>
   apply_multiply tot xs =
     Inr (foldl (*) tot
            (map (\<lambda>c. the (modifier_value c)) (filter (\<lambda>c. modifier_type c = Some MULTIPLY) xs)))"
  by (induction xs arbitrary: tot) auto

lemma apply_add_foldl:
  "\<forall>c \<in> set xs. modifier_type c = Some ADD \<longrightarrow> modifier_value c \<noteq> None \<Longrightarrow>
   apply_add tot xs =
     Inr (foldl (+) tot
            (map (\<lambda>c. the (modifier_value c)) (filter (\<lambda>c. modifier_type c = Some ADD) xs)))"
  by (induction xs arbitrary: tot) auto

lemma calculate_score_scorable:
  assumes "\<forall>c \<in> set (cards p). scorable c"
  shows "calculate_score p is_flip7 = Inr (score_spec (cards p) is_flip7)"
proof -
  have n: "py_sum 0 (get_number_values p) = Inr (sum_list (number_amounts (cards p)))"
    using assms py_sum_values [of "get_number_cards p" 0]
    by (simp add: get_number_values_def get_number_cards_def number_amounts_def scorable_def)
  have m: "apply_multiply t (get_modifier_cards p) = Inr (foldl (*) t (multiply_amounts (cards p)))"
    for t
    using assms apply_multiply_foldl [of "get_modifier_cards p" t]
    by (simp add: get_modifier_cards_def multiply_amounts_def scorable_def)
  have a: "apply_add t (get_modifier_cards p) = Inr (foldl (+) t (add_amounts (cards p)))" for t
    using assms apply_add_foldl [of "get_modifier_cards p" t]
    by (simp add: get_modifier_cards_def add_amounts_def scorable_def)
  show ?thesis
    by (simp add: calculate_score_def n m a score_spec_def)
qed

text \<open>
  Claim C1. On every hand whose cards carry their payload, \<open>calculate_score\<close> returns
  the sum of the number values, multiplied by each Multiply amount in hand order, plus
  each Add amount in hand order, plus 15 when \<open>is_flip7\<close>. A hand whose numbers sum to
  10 and that holds one Add(+4) and one Multiply(x2) scores 24 without the bonus.
\<close>

theorem calculate_score_pipeline:
  assumes "\<forall>c \<in> set (cards p). scorable c"
  shows "calculate_score p is_flip7 = Inr (score_spec (cards p) is_flip7) \<and>
         (sum_list (number_amounts (cards p)) = 10 \<and> multiply_amounts (cards p) = [2] \<and>
          add_amounts (cards p) = [4] \<longrightarrow> calculate_score p False = Inr 24)"
  using calculate_score_scorable [OF assms] by (simp add: score_spec_def)

theorem calculate_score_pipeline_witness:
  "list_all scorable (cards (player_holding hand_10_add4_x2)) \<and>
   score_spec (cards (player_holding hand_10_add4_x2)) False = 24 \<and>
   calculate_score (player_holding hand_10_add4_x2) False = Inr 24"
  using calculate_score_pipeline [of "player_holding hand_10_add4_x2" False]
  by (simp add: player_holding_def hand_10_add4_x2_def num_def number_card_def
      modifier_card_def scorable_def score_spec_def number_amounts_def multiply_amounts_def
      add_amounts_def)

section \<open>Deck construction and drawing\<close>

lemma face_simps [simp]:
  "face (number_card i v) = Number v"
  "face (modifier_card i mt a) = Modifier mt a"
  "face (action_card i act) = Action act"
  by (simp_all add: face_def Number_def Modifier_def Action_def number_card_def
      modifier_card_def action_card_def)

lemma append_number_funpow:
  "map face (fst ((append_number v ^^ n) st)) = map face (fst st) @ replicate n (Number v)"
  by (induction n arbitrary: st)
     (simp_all add: append_number_def funpow_swap1 replicate_append_same)

lemma append_modifier_funpow:
  "map face (fst ((append_modifier mt a ^^ n) st)) = map face (fst st) @ replicate n (Modifier mt a)"
  by (induction n arbitrary: st)
     (simp_all add: append_modifier_def funpow_swap1 replicate_append_same)

lemma append_action_funpow:
  "map face (fst ((append_action a ^^ n) st)) = map face (fst st) @ replicate n (Action a)"
  by (induction n arbitrary: st)
     (simp_all add: append_action_def funpow_swap1 replicate_append_same)

lemma append_emergency_funpow:
  "map face (fst ((append_emergency v ^^ n) st)) = map face (fst st) @ replicate n (Number v)"
  by (induction n arbitrary: st)
     (simp_all add: append_emergency_def funpow_swap1 replicate_append_same)

lemma fold_append_number:
  "map face (fst (fold (\<lambda>v. append_number (f v) ^^ g v) vs st)) =
   map face (fst st) @ concat (map (\<lambda>v. replicate (g v) (Number (f v))) vs)"
  by (induction vs arbitrary: st) (simp_all add: append_number_funpow)

lemma fold_append_modifier:
  "map face (fst (fold (\<lambda>v. append_modifier mt (f v) ^^ g v) vs st)) =
   map face (fst st) @ concat (map (\<lambda>v. replicate (g v) (Modifier mt (f v))) vs)"
  by (induction vs arbitrary: st) (simp_all add: append_modifier_funpow)

lemma fold_append_action:
  "map face (fst (fold (\<lambda>v. append_action (f v) ^^ g v) vs st)) =
   map face (fst st) @ concat (map (\<lambda>v. replicate (g v) (Action (f v))) vs)"
  by (induction vs arbitrary: st) (simp_all add: append_action_funpow)

lemma fold_append_emergency:
  "map face (fst (fold (\<lambda>v. append_emergency (f v) ^^ g v) vs st)) =
   map face (fst st) @ concat (map (\<lambda>v. replicate (g v) (Number (f v))) vs)"
  by (induction vs arbitrary: st) (simp_all add: append_emergency_funpow)

lemma mset_concat_replicate:
  "distinct vs \<Longrightarrow> mset (concat (map (\<lambda>v. replicate (g v) (h v)) vs)) =
   (\<Sum>v \<in> set vs. replicate_mset (g v) (h v))"
  by (induction vs) simp_all

lemma mini_deck_faces: "mset (map face (mini_deck card_id)) = emergency_deck_spec"
proof -
  have "{0..12::nat} = set [0..<13]" by auto
  then show ?thesis
    unfolding mini_deck_def emergency_deck_spec_def fold_append_emergency
    by (simp add: mset_concat_replicate del: upt_Suc)
  qed


lemma deck_copy_faces: "map face (fst (deck_copy st)) = map face (fst st) @ base_list"
  unfolding deck_copy_def Let_def fold_append_action
  by (simp add: append_modifier_def append_modifier_funpow append_action_funpow
      fold_append_number [where f = int and g = "\<lambda>v. if v > 0 then v else 1"]
      base_list_def del: upt_Suc)

lemma deck_copies_faces:
  "map face (fst ((deck_copy ^^ n) st)) = map face (fst st) @ concat (replicate n base_list)"
  by (induction n arbitrary: st) (simp_all add: deck_copy_faces funpow_swap1)

lemma mset_concat_replicate_list: "mset (concat (replicate n xs)) = repeat_mset n (mset xs)"
  by (induction n) simp_all

lemma base_list_spec: "mset base_list = base_deck_spec"
proof -
  have 1: "{1..12::nat} = set [1..<13]" by auto
  have 2: "{2, 4, 6, 8, 10::int} = set [2, 4, 6, 8, 10]" by simp
  have 3: "{FREEZE, FLIP_THREE, SECOND_CHANCE} = set [FREEZE, FLIP_THREE, SECOND_CHANCE]" by simp
  have 4: "[0..<13] = 0 # [1..<13]" by (simp add: upt_conv_Cons)
  have n: "mset (concat (map (\<lambda>v. replicate (if v > 0 then v else 1) (Number (int v))) [0..<13]))
      = (\<Sum>v \<in> {1..12::nat}. replicate_mset v (Number (int v))) + {#Number 0#}"
  proof -
    have "map (\<lambda>v. replicate (if v > 0 then v else 1) (Number (int v))) [1..<13]
        = map (\<lambda>v. replicate v (Number (int v))) [1..<13]"
      by (rule map_cong) auto
    then show ?thesis
      unfolding 1 4 by (simp add: mset_concat_replicate del: upt_Suc)
  qed
  show ?thesis
    unfolding base_list_def base_deck_spec_def mset_append n
    unfolding 2 3
    by (simp add: mset_concat_replicate [symmetric])
qed

lemma create_deck_faces:
  assumes "random_ok R"
  shows "mset (map face (create_deck R k num_players)) =
         repeat_mset (nat (num_decks_for num_players)) base_deck_spec"
proof -
  have "mset (map face (shuffle R k xs)) = mset (map face xs)" for xs
    using assms by (simp add: random_ok_def)
  then show ?thesis
    using deck_copies_faces [of "nat (num_decks_for num_players)" "([], 0)"]
    by (simp add: create_deck_def mset_concat_replicate_list base_list_spec
        flip: mset_map)
qed


lemma length_base_list: "length base_list = 104"
  by code_simp

lemma size_base_deck_spec: "size base_deck_spec = 104"
  unfolding base_list_spec [symmetric] by (simp add: length_base_list)

lemma length_emergency_list:
  "length (concat (map (\<lambda>v. replicate (max 1 (v div 2)) (Number (int v))) [0..<13])) = 38"
  by code_simp

lemma size_emergency_deck_spec: "size emergency_deck_spec = 38"
proof -
  have "size (mset (map face (mini_deck 0))) = 38"
    unfolding mini_deck_def fold_append_emergency size_mset
    using length_emergency_list by simp
  then show ?thesis by (simp only: mini_deck_faces)
qed

text \<open>
  Claim C4. As the code has it, for every player count the deck built at match start
  is, up to card identifiers and order, \<open>max(2, (playerCount + 2) div 3)\<close> copies of the
  base deck (floor division, which is \<open>ceil(playerCount / 3)\<close>): per copy \<open>v\<close> number
  cards of each value 1 to 12, one of value 0, three Add cards of each amount 2, 4, 6,
  8, 10, one Multiply x2 and three action cards of each kind, 104 cards in all.
\<close>

theorem create_deck_composition:
  assumes "random_ok R"
  shows "mset (map face (create_deck R k num_players)) =
           repeat_mset (nat (max 2 ((num_players + 2) div 3))) base_deck_spec \<and>
         int (length (create_deck R k num_players)) = 104 * max 2 ((num_players + 2) div 3)"
proof -
  have m: "mset (map face (create_deck R k num_players)) =
           repeat_mset (nat (max 2 ((num_players + 2) div 3))) base_deck_spec"
    using create_deck_faces [OF assms] by (simp add: num_decks_for_def)
  have "length (create_deck R k num_players) = size (mset (map face (create_deck R k num_players)))"
    by simp
  also have "\<dots> = nat (max 2 ((num_players + 2) div 3)) * 104"
    unfolding m by (simp add: size_base_deck_spec)
  finally show ?thesis using m by simp
qed

lemma random_ok_R_id: "random_ok R_id"
  by (simp add: random_ok_def R_id_def)

theorem create_deck_composition_witness:
  "random_ok R_id \<and>
   mset (map face (create_deck R_id 0 4)) = repeat_mset 2 base_deck_spec \<and>
   length (create_deck R_id 0 4) = 208 \<and>
   mset (map face (create_deck R_id 0 7)) = repeat_mset 3 base_deck_spec"
  using create_deck_composition [OF random_ok_R_id, of 0 4]
        create_deck_composition [OF random_ok_R_id, of 0 7]
  by (simp add: random_ok_R_id)

text \<open>
  Claim C4 as stated fails: with five players the specification's \<open>max(2, ceil((playerCount + 2) / 3))\<close> is 3,
  and the deck built holds two copies of the base deck, not three.
\<close>

theorem create_deck_five_players:
  "deck_count_spec 5 = 3 \<and>
   mset (map face (create_deck R_id 0 5)) = repeat_mset 2 base_deck_spec \<and>
   mset (map face (create_deck R_id 0 5)) \<noteq> repeat_mset (nat (deck_count_spec 5)) base_deck_spec"
proof -
  have d: "deck_count_spec 5 = 3"
    by (simp add: deck_count_spec_def)
  have m: "mset (map face (create_deck R_id 0 5)) = repeat_mset 2 base_deck_spec"
    using create_deck_faces [OF random_ok_R_id, of 0 5] by (simp add: num_decks_for_def)
  have "size (repeat_mset 2 base_deck_spec) \<noteq> size (repeat_mset 3 base_deck_spec)"
    by (simp add: size_base_deck_spec)
  then have "repeat_mset 2 base_deck_spec \<noteq> repeat_mset 3 base_deck_spec"
    by metis
  then show ?thesis using d m by simp
qed

lemma pop_mset: "xs \<noteq> [] \<Longrightarrow> mset (last xs # butlast xs) = mset xs"
  by (induction xs rule: rev_induct) simp_all

text \<open>
  Claim C5. \<open>draw_card\<close> always returns a card. With cards in the deck it pops the last
  one. With an empty deck and a non-empty discard pile it draws from the shuffled
  discard pile, which is cleared. With both empty it draws from the shuffled emergency
  deck: number cards only, \<open>max(1, v div 2)\<close> of each value 0 to 12 (38 cards).
\<close>

theorem draw_card_total:
  assumes "random_ok R"
  shows "(\<exists>c s'. draw_card R s = Inr (c, s')) \<and>
    (deck s \<noteq> [] \<longrightarrow> draw_card R s = Inr (last (deck s), s\<lparr>deck := butlast (deck s)\<rparr>)) \<and>
    (deck s = [] \<and> discard_pile s \<noteq> [] \<longrightarrow>
       (\<exists>c s'. draw_card R s = Inr (c, s') \<and> discard_pile s' = [] \<and>
          mset (c # deck s') = mset (discard_pile s))) \<and>
    (deck s = [] \<and> discard_pile s = [] \<longrightarrow>
       (\<exists>c s'. draw_card R s = Inr (c, s') \<and> discard_pile s' = [] \<and>
          mset (map face (c # deck s')) = emergency_deck_spec))"
proof -
  have sh: "mset (shuffle R k xs) = mset xs" for k xs
    using assms by (simp add: random_ok_def)
  have ne: "shuffle R k xs \<noteq> []" if "xs \<noteq> []" for k xs
    using sh [of k xs] that by (metis mset_zero_iff)
  have em: "mini_deck cid \<noteq> []" for cid
    using mini_deck_faces [of cid] size_emergency_deck_spec by auto
  show ?thesis
  proof (cases "deck s = []")
    case False
    then show ?thesis
      by (simp add: draw_card_def refill_emergency_def refill_from_discard_def)
  next
    case True
    show ?thesis
    proof (cases "discard_pile s = []")
      case False
      with True ne [OF False, of "rng s"] pop_mset [of "shuffle R (rng s) (discard_pile s)"] sh
      show ?thesis
        by (simp add: draw_card_def refill_emergency_def refill_from_discard_def)
    next
      case d: True
      let ?m = "shuffle R (rng s + 1) (mini_deck (randint R (rng s) 10000 99999))"
      have "?m \<noteq> []" using ne em by simp
      moreover have "mset (map face (last ?m # butlast ?m)) = emergency_deck_spec"
        using pop_mset [OF \<open>?m \<noteq> []\<close>] sh mini_deck_faces
        by (metis mset_map)
      ultimately show ?thesis using True d
        by (simp add: draw_card_def refill_emergency_def refill_from_discard_def)
    qed
  qed
qed


theorem draw_card_total_witness:
  "random_ok R_id \<and>
   (\<exists>c s'. draw_card R_id (table [] [] []) = Inr (c, s') \<and> discard_pile s' = [] \<and>
      mset (map face (c # deck s')) = emergency_deck_spec) \<and>
   (\<exists>c s'. draw_card R_id (table [] [] [num 3, num 5]) = Inr (c, s') \<and> discard_pile s' = [] \<and>
      mset (c # deck s') = mset [num 3, num 5]) \<and>
   draw_card R_id (table [] [num 3, num 5] []) = Inr (num 5, table [] [num 3] []) \<and>
   size emergency_deck_spec = 38"
  using draw_card_total [OF random_ok_R_id, of "table [] [] []"]
        draw_card_total [OF random_ok_R_id, of "table [] [] [num 3, num 5]"]
        draw_card_total [OF random_ok_R_id, of "table [] [num 3, num 5] []"]
  by (simp add: random_ok_R_id table_def size_emergency_deck_spec)

section \<open>The bust-probability strategy\<close>

lemma total_number_cards_78: "(\<Sum>v\<leftarrow>[0..<13]. int v) = 78"
  by code_simp

text \<open>
  Claim C6. As the code has it, on a hand whose number cards carry their values,
  \<open>BustProbabilityStrategy(p, scAware).should_hit\<close> returns true if and only if the deck
  and the discard pile are not both empty and sum(distinct number values held) / 78 is at
  most the effective threshold: \<open>min(1, 2p)\<close> when \<open>scAware\<close> and the player holds Second
  Chance, \<open>p\<close> otherwise. The quotient and the doubling are float operations.
\<close>

theorem should_hit_bust_probability:
  assumes "None \<notin> set (get_number_values player)"
  shows "should_hit (BustProbabilityStrategy rnd p sc_aware) player game_state =
    Inr ((deck game_state \<noteq> [] \<or> discard_pile game_state \<noteq> []) \<and>
         rnd (real_of_int (\<Sum>v \<in> set (get_number_values player). the v) / 78)
           \<le> (if sc_aware \<and> has_second_chance player then min 1 (rnd (p * 2)) else p))"
  using assms
  by (auto simp add: BustProbabilityStrategy_def BustProbabilityStrategy_should_hit_def Let_def
      py_sum_set_def total_number_cards_78)

theorem should_hit_bust_probability_witness:
  "None \<notin> set (get_number_values (player_holding [num 5])) \<and>
   should_hit (BustProbabilityStrategy id (1 / 2) False) (player_holding [num 5])
     (table [player_holding [num 5]] [num 3] []) = Inr True"
  using should_hit_bust_probability [of "player_holding [num 5]" id "1 / 2" False
      "table [player_holding [num 5]] [num 3] []"]
  by (simp add: player_holding_def table_def num_def number_card_def get_number_values_def
      get_number_cards_def)

text \<open>
  Claim C6 as stated fails: with the deck and the discard pile both empty the strategy stays, although 5 / 78 is
  below the threshold 0.5: the guard \<open>total_deck_size == 0\<close> comes first.
\<close>

theorem should_hit_empty_deck:
  "should_hit (BustProbabilityStrategy id (1 / 2) False) (player_holding [num 5])
     (table [player_holding [num 5]] [] []) = Inr False \<and>
   id (real_of_int (\<Sum>v \<in> set (get_number_values (player_holding [num 5])). the v) / 78)
     \<le> (1 / 2 :: real)"
  by (simp add: BustProbabilityStrategy_def BustProbabilityStrategy_should_hit_def Let_def
      player_holding_def table_def num_def number_card_def get_number_values_def
      get_number_cards_def)

section \<open>Turns\<close>

lemma draw_card_players: "draw_card R s = Inr (c, s1) \<Longrightarrow> players s1 = players s"
  by (auto simp: draw_card_def refill_emergency_def refill_from_discard_def Let_def
      split: if_splits)

text \<open>
  Claim C2. In a hit batch, when the drawn card is a number card whose value is already
  among the player's number values: with Second Chance the flag is cleared, the card
  goes to the end of the discard pile and not into the hand, the player stays as active
  as before and the batch goes on with the draws left; without it the player is busted
  (round score 0, \<open>has_busted\<close>, inactive), nothing more is drawn, and the turn returns
  with the round continuing.
\<close>

theorem hit_batch_duplicate:
  assumes d: "draw_card R s = Inr (c, s1)"
    and i: "i < length (players s)"
    and dup: "card_type c = NUMBER" "value_c c \<in> set (get_number_values (players s ! i))"
  shows "(has_second_chance (players s ! i) \<longrightarrow>
           hit_batch R i (Suc n) s =
             hit_batch R i n
               (s1\<lparr>players := (players s)[i := (players s ! i)\<lparr>has_second_chance := False\<rparr>],
                   discard_pile := discard_pile s1 @ [c]\<rparr>)) \<and>
         (\<not> has_second_chance (players s ! i) \<longrightarrow>
           hit_batch R i (Suc n) s =
             Inr (True, s1\<lparr>players := (players s)[i := (players s ! i)
                    \<lparr>has_busted := True, is_active := False, round_score := 0\<rparr>]\<rparr>) \<and>
           (is_active (players s ! i) \<and> \<not> has_flip7 (players s ! i) \<and>
            length (get_number_cards (players s ! i)) < 10 \<and>
            should_hit strategy (players s ! i) s = Inr True \<longrightarrow>
            play_turn R strategy i s =
              Inr (True, s1\<lparr>players := (players s)[i := (players s ! i)
                     \<lparr>has_busted := True, is_active := False, round_score := 0\<rparr>]\<rparr>)))"
proof -
  have p: "players s1 = players s" using d by (rule draw_card_players)
  have wb: "would_bust (players s1 ! i) c" using dup p by (simp add: would_bust_def)
  have h: "hit_batch R i (Suc m) s = Inr (True, s1\<lparr>players := (players s)[i := (players s ! i)
                    \<lparr>has_busted := True, is_active := False, round_score := 0\<rparr>]\<rparr>)"
    if "\<not> has_second_chance (players s ! i)" for m
    using d wb that p by simp
  have "play_turn R strategy i s = Inr (True, s1\<lparr>players := (players s)[i := (players s ! i)
                    \<lparr>has_busted := True, is_active := False, round_score := 0\<rparr>]\<rparr>)"
    if "\<not> has_second_chance (players s ! i)" "is_active (players s ! i)"
       "\<not> has_flip7 (players s ! i)" "length (get_number_cards (players s ! i)) < 10"
       "should_hit strategy (players s ! i) s = Inr True"
    using that i h [of 0] h [of 2]
    by (simp add: play_turn_def Let_def numeral_3_eq_3 del: hit_batch.simps)
  then show ?thesis
    using d wb p h [of n] by simp
qed

lemma draw_card_table:
  "draw_card R (table ps (d @ [c]) dp) = Inr (c, table ps d dp)"
  by (simp add: draw_card_def refill_emergency_def refill_from_discard_def table_def)

theorem hit_batch_duplicate_witness:
  "draw_card R_id (table [protected (player_holding [num 5])] [num 7, num 5] [])
     = Inr (num 5, table [protected (player_holding [num 5])] [num 7] []) \<and>
   card_type (num 5) = NUMBER \<and>
   value_c (num 5) \<in> set (get_number_values (player_holding [num 5])) \<and>
   hit_batch R_id 0 (Suc 0) (table [protected (player_holding [num 5])] [num 7, num 5] [])
     = Inr (False, table [player_holding [num 5]] [num 7] [num 5]) \<and>
   hit_batch R_id 0 (Suc 0) (table [player_holding [num 5]] [num 7, num 5] [])
     = Inr (True, table [(player_holding [num 5])\<lparr>has_busted := True, is_active := False\<rparr>]
                    [num 7] []) \<and>
   play_turn R_id (CardCountStrategy 5 False) 0 (table [player_holding [num 5]] [num 7, num 5] [])
     = Inr (True, table [(player_holding [num 5])\<lparr>has_busted := True, is_active := False\<rparr>]
                    [num 7] [])"
proof -
  let ?p = "player_holding [num 5]"
  have d: "draw_card R_id (table [p] [num 7, num 5] []) = Inr (num 5, table [p] [num 7] [])" for p
    using draw_card_table [of R_id "[p]" "[num 7]" "num 5" "[]"] by simp
  have v: "value_c (num 5) \<in> set (get_number_values ?p)"
          "value_c (num 5) \<in> set (get_number_values (protected ?p))"
          "card_type (num 5) = NUMBER"
    by (simp_all add: protected_def player_holding_def get_number_values_def
        get_number_cards_def num_def number_card_def)
  have a: "hit_batch R_id 0 (Suc 0) (table [protected ?p] [num 7, num 5] [])
     = Inr (False, table [?p] [num 7] [num 5])"
    using hit_batch_duplicate [OF d [of "protected ?p"], of 0 0] v
    by (simp add: table_def protected_def player_holding_def del: hit_batch.simps(2))
  have b: "hit_batch R_id 0 (Suc 0) (table [?p] [num 7, num 5] [])
     = Inr (True, table [?p\<lparr>has_busted := True, is_active := False\<rparr>] [num 7] []) \<and>
    play_turn R_id (CardCountStrategy 5 False) 0 (table [?p] [num 7, num 5] [])
     = Inr (True, table [?p\<lparr>has_busted := True, is_active := False\<rparr>] [num 7] [])"
    using hit_batch_duplicate [OF d [of ?p], of 0 0 "CardCountStrategy 5 False"] v
    by (simp add: table_def player_holding_def has_flip7_def get_number_values_def
        get_number_cards_def num_def number_card_def CardCountStrategy_def
        del: hit_batch.simps(2))
  show ?thesis using d a b v by simp
qed

lemma mod_below_twice: "y < 2 * n \<Longrightarrow> (y::nat) mod n = (if y < n then y else y - n)"
  by (simp add: mod_if)

lemma dist_decreases:
  fixes st c n :: nat
  assumes "st < n" "c < n" "(c + 1) mod n \<noteq> st"
  shows "(st + n - 1 - (c + 1) mod n) mod n < (st + n - 1 - c) mod n"
proof (cases "c + 1 < n")
  case True
  then have k: "(c + 1) mod n = c + 1" by simp
  have a: "st + n - 1 - (c + 1) < 2 * n" "st + n - 1 - c < 2 * n" using assms by arith+
  show ?thesis
    unfolding k mod_below_twice [OF a(1)] mod_below_twice [OF a(2)]
    using assms True k by (auto split: if_splits)
next
  case False
  then have c: "c = n - 1" using assms by arith
  then have k: "(c + 1) mod n = 0" using assms by simp
  have a: "st + n - 1 - 0 < 2 * n" "st + n - 1 - c < 2 * n" using assms by arith+
  show ?thesis
    unfolding k mod_below_twice [OF a(1)] mod_below_twice [OF a(2)]
    using assms c k by (auto split: if_splits)
qed

lemma next_player_loop_total:
  assumes n: "0 < length (players s)" and st: "st < length (players s)"
    and c: "current_player_idx s < length (players s)"
  shows "\<exists>k < length (players s). next_player_loop st s = Some (Inr (s\<lparr>current_player_idx := k\<rparr>))"
  using n st c
proof (induction "(st + length (players s) - 1 - current_player_idx s) mod length (players s)"
       arbitrary: s rule: less_induct)
  case less
  let ?n = "length (players s)"
  let ?k = "(current_player_idx s + 1) mod ?n"
  have k: "?k < ?n" using less.prems by simp
  show ?case
  proof (cases "is_active (players s ! ?k) \<or> ?k = st")
    case True
    then have "next_player_loop st s = Some (Inr (s\<lparr>current_player_idx := ?k\<rparr>))"
      using less.prems by (subst next_player_loop.simps) auto
    with k show ?thesis by blast
  next
    case False
    let ?s' = "s\<lparr>current_player_idx := ?k\<rparr>"
    have step: "next_player_loop st s = next_player_loop st ?s'"
      using False less.prems by (subst next_player_loop.simps) auto
    have dec: "(st + ?n - 1 - ?k) mod ?n < (st + ?n - 1 - current_player_idx s) mod ?n"
      using dist_decreases [of st ?n "current_player_idx s"] False less.prems by simp
    from less.hyps [of ?s'] dec less.prems k
    obtain j where "j < ?n" "next_player_loop st ?s' = Some (Inr (?s'\<lparr>current_player_idx := j\<rparr>))"
      by auto
    with step show ?thesis by auto
  qed
qed

lemma next_player_total:
  assumes "current_player_idx s < length (players s)"
  shows "\<exists>k < length (players s). next_player s = Some (Inr (s\<lparr>current_player_idx := k\<rparr>))"
proof -
  have "0 < length (players s)" using assms by (cases "players s") simp_all
  from next_player_loop_total [OF this assms assms] show ?thesis
    by (simp add: next_player_def)
qed


lemma bank_score_scorable:
  assumes "\<forall>c \<in> set (cards (players s ! i)). scorable c"
  shows "bank_score f i s =
    Inr (s\<lparr>players := (players s)[i := (players s ! i)
           \<lparr>round_score := score_spec (cards (players s ! i)) f, is_active := False\<rparr>]\<rparr>)"
  using calculate_score_scorable [OF assms] by (simp add: bank_score_def)

lemma distinct_values_count:
  "distinct (get_number_values p) \<Longrightarrow>
   card (set (get_number_values p)) = length (get_number_cards p)"
  using distinct_card [of "get_number_values p"] by (simp add: get_number_values_def)

lemma round_loop_step:
  assumes "\<exists>p \<in> set (players s). is_active p" "turn_count < 100"
    "current_player_idx s < length (players s)" "current_player_idx s < length strategies"
    "play_turn R (strategies ! current_player_idx s) (current_player_idx s) s = Inr (b, s1)"
  shows "round_loop R strategies turn_count s =
     (if \<not> b then Some (Inr s1)
      else (case next_player s1 of
              None \<Rightarrow> None
            | Some (Inl e) \<Rightarrow> Some (Inl e)
            | Some (Inr s2) \<Rightarrow> round_loop R strategies (turn_count + 1) s2))"
  using assms by (subst round_loop.simps) (simp del: round_loop.simps)

text \<open>
  Claim C3. When an active player holds 7 distinct number values at the start of the
  turn, or after a hit batch that ran to its end, the round score is the plain score
  plus 15, the player becomes inactive and the turn reports the end of the round; the
  round loop then stops on that very state, so nobody else takes a turn.
\<close>

theorem flip7_ends_round:
  assumes i: "i < length (players s)"
    and a: "is_active (players s ! i)"
  shows "(has_flip7 (players s ! i) \<and> (\<forall>c \<in> set (cards (players s ! i)). scorable c) \<longrightarrow>
            play_turn R strategy i s =
              Inr (False, s\<lparr>players := (players s)[i := (players s ! i)
                     \<lparr>round_score := score_spec (cards (players s ! i)) False + 15,
                      is_active := False\<rparr>]\<rparr>)) \<and>
         (\<not> has_flip7 (players s ! i) \<and> length (get_number_cards (players s ! i)) < 10 \<and>
          should_hit strategy (players s ! i) s = Inr True \<and>
          hit_batch R i (if has_flip_three_active (players s ! i) then 3 else 1) s = Inr (False, s1) \<and>
          has_flip7 (players s1 ! i) \<and> (\<forall>c \<in> set (cards (players s1 ! i)). scorable c) \<longrightarrow>
            play_turn R strategy i s =
              Inr (False, s1\<lparr>players := (players s1)[i := (players s1 ! i)
                     \<lparr>round_score := score_spec (cards (players s1 ! i)) False + 15,
                      is_active := False\<rparr>]\<rparr>)) \<and>
         (current_player_idx s = i \<and> i < length strategies \<and> turn_count < 100 \<and>
          play_turn R (strategies ! i) i s = Inr (False, s2) \<longrightarrow>
            round_loop R strategies turn_count s = Some (Inr s2))"
proof (intro conjI impI)
  assume h: "has_flip7 (players s ! i) \<and> (\<forall>c \<in> set (cards (players s ! i)). scorable c)"
  then show "play_turn R strategy i s =
              Inr (False, s\<lparr>players := (players s)[i := (players s ! i)
                     \<lparr>round_score := score_spec (cards (players s ! i)) False + 15,
                      is_active := False\<rparr>]\<rparr>)"
    using i a bank_score_scorable [of s i True]
    by (simp add: play_turn_def score_spec_def)
next
  assume h: "\<not> has_flip7 (players s ! i) \<and> length (get_number_cards (players s ! i)) < 10 \<and>
          should_hit strategy (players s ! i) s = Inr True \<and>
          hit_batch R i (if has_flip_three_active (players s ! i) then 3 else 1) s = Inr (False, s1) \<and>
          has_flip7 (players s1 ! i) \<and> (\<forall>c \<in> set (cards (players s1 ! i)). scorable c)"
  then show "play_turn R strategy i s =
              Inr (False, s1\<lparr>players := (players s1)[i := (players s1 ! i)
                     \<lparr>round_score := score_spec (cards (players s1 ! i)) False + 15,
                      is_active := False\<rparr>]\<rparr>)"
    using i a bank_score_scorable [of s1 i True]
    by (simp add: play_turn_def score_spec_def Let_def del: hit_batch.simps)
next
  assume h: "current_player_idx s = i \<and> i < length strategies \<and> turn_count < 100 \<and>
          play_turn R (strategies ! i) i s = Inr (False, s2)"
  have ex: "\<exists>p \<in> set (players s). is_active p"
    using i a nth_mem by blast
  show "round_loop R strategies turn_count s = Some (Inr s2)"
    using round_loop_step [OF ex, of turn_count strategies R False s2] h i
    by (simp del: round_loop.simps)
qed


lemmas example_defs = table_def player_holding_def num_def number_card_def six_cards_def
  seven_cards_def ten_cards_def get_number_values_def get_number_cards_def scorable_def
  score_spec_def number_amounts_def multiply_amounts_def add_amounts_def

lemma values_of_nums: "get_number_values (player_holding (map num vs)) = map Some vs"
  by (induction vs)
     (simp_all add: get_number_values_def get_number_cards_def player_holding_def num_def
        number_card_def)

lemma hands_as_nums:
  "six_cards = map num [0, 1, 2, 3, 4, 5]"
  "seven_cards = map num [0, 1, 2, 3, 4, 5, 6]"
  "ten_cards = map num [0, 1, 2, 3, 4, 5, 6, 7, 8, 9]"
  by (simp_all add: six_cards_def seven_cards_def ten_cards_def)

lemma take_card_num: "take_card (player_holding h) (num v) = player_holding (h @ [num v])"
  by (simp add: take_card_def player_holding_def num_def number_card_def)

theorem flip7_ends_round_witness:
  "has_flip7 (player_holding seven_cards) \<and>
   play_turn R_id (BotStrategy_base ''none'') 0
       (table [player_holding seven_cards, player_holding [num 9]] [] []) =
     Inr (False, table [(player_holding seven_cards)\<lparr>round_score := 36, is_active := False\<rparr>,
                        player_holding [num 9]] [] []) \<and>
   round_loop R_id [BotStrategy_base ''none'', BotStrategy_base ''none''] 0
       (table [player_holding seven_cards, player_holding [num 9]] [] []) =
     Some (Inr (table [(player_holding seven_cards)\<lparr>round_score := 36, is_active := False\<rparr>,
                        player_holding [num 9]] [] [])) \<and>
   hit_batch R_id 0 1 (table [player_holding six_cards, player_holding [num 9]] [num 8, num 6] []) =
     Inr (False, table [player_holding seven_cards, player_holding [num 9]] [num 8] []) \<and>
   play_turn R_id (CardCountStrategy 7 False) 0
       (table [player_holding six_cards, player_holding [num 9]] [num 8, num 6] []) =
     Inr (False, table [(player_holding seven_cards)\<lparr>round_score := 36, is_active := False\<rparr>,
                        player_holding [num 9]] [num 8] [])"
proof -
  let ?q = "player_holding [num 9]"
  let ?sA = "table [player_holding seven_cards, ?q] [] []"
  let ?sB = "table [player_holding six_cards, ?q] [num 8, num 6] []"
  let ?s1 = "table [player_holding seven_cards, ?q] [num 8] []"
  let ?st = "BotStrategy_base ''none''"
  have f: "has_flip7 (player_holding seven_cards)"
    by (simp only: has_flip7_def hands_as_nums values_of_nums) simp
  have nf: "\<not> has_flip7 (player_holding six_cards)"
    by (simp only: has_flip7_def hands_as_nums values_of_nums) simp
  have wb: "\<not> would_bust (player_holding six_cards) (num 6)"
    by (simp only: would_bust_def hands_as_nums values_of_nums) (simp add: num_def number_card_def)
  have hb: "hit_batch R_id 0 1 ?sB = Inr (False, ?s1)"
    using draw_card_table [of R_id "[player_holding six_cards, ?q]" "[num 8]" "num 6" "[]"] wb
    by (simp add: take_card_num table_def seven_cards_def)
  have a: "play_turn R_id ?st 0 ?sA =
     Inr (False, table [(player_holding seven_cards)\<lparr>round_score := 36, is_active := False\<rparr>, ?q] [] [])"
    using flip7_ends_round [of 0 ?sA R_id ?st] f
    by (simp add: example_defs)
  have b: "round_loop R_id [?st, ?st] 0 ?sA =
     Some (Inr (table [(player_holding seven_cards)\<lparr>round_score := 36, is_active := False\<rparr>, ?q] [] []))"
    using flip7_ends_round [of 0 ?sA R_id ?st ?s1 "[?st, ?st]" 0] a
    by (simp add: example_defs del: round_loop.simps)
  have c: "play_turn R_id (CardCountStrategy 7 False) 0 ?sB =
     Inr (False, table [(player_holding seven_cards)\<lparr>round_score := 36, is_active := False\<rparr>, ?q] [num 8] [])"
    using flip7_ends_round [of 0 ?sB R_id "CardCountStrategy 7 False" ?s1] f nf hb
    by (simp add: example_defs CardCountStrategy_def del: hit_batch.simps)
  show ?thesis using f a b c hb by simp
qed

section \<open>Invariants of a round\<close>

lemma shuffle_set: "random_ok R \<Longrightarrow> set (shuffle R k xs) = set xs"
  by (metis random_ok_def set_mset_mset)

lemma shuffle_keeps_random_ok: "random_ok R \<Longrightarrow> shuffle_keeps R C"
  by (simp add: shuffle_keeps_def shuffle_set)

lemma shuffle_keeps_True: "shuffle_keeps R (\<lambda>c. True)"
  by (simp add: shuffle_keeps_def)

lemma draw_card_inv:
  assumes R: "shuffle_keeps R C" and cl: "turn_closed Q C"
    and pl: "pool C s" and d: "draw_card R s = Inr (c, s1)"
  shows "C c \<and> pool C s1 \<and> players s1 = players s"
proof -
  have em: "\<And>k x. x \<in> set (mini_deck k) \<Longrightarrow> C x"
    using cl by (simp add: turn_closed_def)
  let ?s2 = "refill_emergency R (refill_from_discard R s)"
  have sh: "\<And>k xs x. x \<in> set (shuffle R k xs) \<Longrightarrow> \<forall>y \<in> set xs. C y \<Longrightarrow> C x"
    using R unfolding shuffle_keeps_def by blast
  have sm: "\<And>k j x. x \<in> set (shuffle R k (mini_deck j)) \<Longrightarrow> C x"
    using sh em by blast
  have p2: "pool C ?s2"
    using pl sm sh [of _ _ "discard_pile s"]
    by (auto simp: pool_def refill_emergency_def refill_from_discard_def)
  have ne: "deck ?s2 \<noteq> []" and c: "c = last (deck ?s2)" and s1: "s1 = ?s2\<lparr>deck := butlast (deck ?s2)\<rparr>"
    using d by (auto simp: draw_card_def Let_def split: if_splits)
  have "C c" using p2 ne c by (simp add: pool_def)
  moreover have "pool C s1"
    using p2 s1 by (auto simp: pool_def dest: in_set_butlastD)
  moreover have "players s1 = players s"
    using d by (rule draw_card_players)
  ultimately show ?thesis by simp
qed

lemma seats_update:
  "seats Q s \<Longrightarrow> i < length (players s) \<Longrightarrow> Q i p \<Longrightarrow> players s' = (players s)[i := p] \<Longrightarrow> seats Q s'"
  by (auto simp: seats_def nth_list_update)

lemma hit_batch_inv:
  assumes R: "shuffle_keeps R C" and cl: "turn_closed Q C"
  shows "i < length (players s) \<Longrightarrow> pool C s \<Longrightarrow> seats Q s \<Longrightarrow>
         hit_batch R i n s = Inr (b, s') \<Longrightarrow>
         pool C s' \<and> seats Q s' \<and> length (players s') = length (players s)"
proof (induction n arbitrary: s)
  case 0
  then show ?case by simp
next
  case (Suc n)
  from Suc.prems(4) obtain c s1 where d: "draw_card R s = Inr (c, s1)"
    by (auto split: sum.splits)
  from draw_card_inv [OF R cl Suc.prems(2) d]
  have c: "C c" and p1: "pool C s1" and ps: "players s1 = players s" by simp_all
  have q: "Q i (players s ! i)" using Suc.prems(1,3) by (simp add: seats_def)
  show ?case
  proof (cases "would_bust (players s ! i) c")
    case wb: True
    show ?thesis
    proof (cases "has_second_chance (players s ! i)")
      case True
      let ?s2 = "s1\<lparr>players := (players s1)[i := (players s1 ! i)\<lparr>has_second_chance := False\<rparr>],
                    discard_pile := discard_pile s1 @ [c]\<rparr>"
      have h: "hit_batch R i n ?s2 = Inr (b, s')"
        using Suc.prems(4) d wb True ps by simp
      have "pool C ?s2" using p1 c by (auto simp: pool_def)
      moreover have "seats Q ?s2"
        using seats_update [OF Suc.prems(3,1), of "(players s ! i)\<lparr>has_second_chance := False\<rparr>" ?s2]
          q cl ps by (simp add: turn_closed_def)
      moreover have "i < length (players ?s2)" using Suc.prems(1) ps by simp
      ultimately show ?thesis
        using Suc.IH [OF _ _ _ h] ps by simp
    next
      case False
      let ?s3 = "s1\<lparr>players := (players s1)[i := (players s1 ! i)
                   \<lparr>has_busted := True, is_active := False, round_score := 0\<rparr>]\<rparr>"
      have h: "s' = ?s3" using Suc.prems(4) d wb False ps by simp
      have "seats Q ?s3"
        using seats_update [OF Suc.prems(3,1),
            of "(players s ! i)\<lparr>has_busted := True, is_active := False, round_score := 0\<rparr>" ?s3]
          q cl ps by (simp add: turn_closed_def)
      then show ?thesis using h p1 ps by (simp add: pool_def)
    qed
  next
    case False
    let ?s2 = "s1\<lparr>players := (players s1)[i := take_card (players s1 ! i) c]\<rparr>"
    have h: "hit_batch R i n ?s2 = Inr (b, s')"
      using Suc.prems(4) d False ps by simp
    have "pool C ?s2" using p1 by (simp add: pool_def)
    moreover have "seats Q ?s2"
      using seats_update [OF Suc.prems(3,1), of "take_card (players s ! i) c" ?s2]
        q cl ps False c by (simp add: turn_closed_def)
    moreover have "i < length (players ?s2)" using Suc.prems(1) ps by simp
    ultimately show ?thesis
      using Suc.IH [OF _ _ _ h] ps by simp
  qed
qed

lemma bank_score_inv:
  assumes cl: "turn_closed Q C"
    and i: "i < length (players s)" and pl: "pool C s" and se: "seats Q s"
    and b: "bank_score f i s = Inr s'"
  shows "pool C s' \<and> seats Q s' \<and> length (players s') = length (players s)"
proof -
  from b obtain sc where sc: "calculate_score (players s ! i) f = Inr sc"
    and s': "s' = s\<lparr>players := (players s)[i := (players s ! i)\<lparr>round_score := sc, is_active := False\<rparr>]\<rparr>"
    by (auto simp: bank_score_def split: sum.splits)
  have "Q i ((players s ! i)\<lparr>round_score := sc, is_active := False\<rparr>)"
    using cl sc se i by (auto simp: turn_closed_def seats_def)
  from seats_update [OF se i this, of s'] pl s' show ?thesis
    by (simp add: pool_def)
qed

lemma play_turn_inv:
  assumes R: "shuffle_keeps R C" and cl: "turn_closed Q C"
    and pl: "pool C s" and se: "seats Q s"
    and t: "play_turn R strategy i s = Inr (b, s')"
  shows "pool C s' \<and> seats Q s' \<and> length (players s') = length (players s)"
proof -
  have i: "i < length (players s)"
    using t by (auto simp: play_turn_def split: if_splits)
  note bk = bank_score_inv [OF cl i pl se]
  show ?thesis
  proof (cases "\<not> is_active (players s ! i) \<or> has_flip7 (players s ! i) \<or>
                10 \<le> length (get_number_cards (players s ! i))")
    case True
    then show ?thesis
      using t i pl se bk
      by (auto simp: play_turn_def split: if_splits sum.splits)
  next
    case False
    then obtain hit where sh: "should_hit strategy (players s ! i) s = Inr hit"
      using t i by (auto simp: play_turn_def split: if_splits sum.splits)
    show ?thesis
    proof (cases hit)
      case False
      then show ?thesis
        using t i sh bk \<open>\<not> (\<not> is_active (players s ! i) \<or> has_flip7 (players s ! i) \<or>
                10 \<le> length (get_number_cards (players s ! i)))\<close>
        by (auto simp: play_turn_def split: if_splits sum.splits)
    next
      case True
      let ?n = "if has_flip_three_active (players s ! i) then 3 else 1"
      from t i sh True \<open>\<not> (\<not> is_active (players s ! i) \<or> has_flip7 (players s ! i) \<or>
                10 \<le> length (get_number_cards (players s ! i)))\<close>
      obtain bu s1 where hb: "hit_batch R i ?n s = Inr (bu, s1)"
        by (auto simp: play_turn_def Let_def split: if_splits sum.splits simp del: hit_batch.simps)
      from hit_batch_inv [OF R cl i pl se hb]
      have p1: "pool C s1" and q1: "seats Q s1" and l1: "length (players s1) = length (players s)"
        by simp_all
      have i1: "i < length (players s1)" using i l1 by simp
      have ft: "seats Q (s1\<lparr>players := (players s1)[i := (players s1 ! i)
                                 \<lparr>has_flip_three_active := False\<rparr>]\<rparr>)"
        using cl q1 i1 by (auto simp: turn_closed_def seats_def nth_list_update)
      show ?thesis
        using t i sh True hb p1 q1 l1 ft bank_score_inv [OF cl i1 p1 q1]
          \<open>\<not> (\<not> is_active (players s ! i) \<or> has_flip7 (players s ! i) \<or>
                10 \<le> length (get_number_cards (players s ! i)))\<close>
        by (auto simp: play_turn_def Let_def pool_def split: if_splits sum.splits
            simp del: hit_batch.simps)
    qed
  qed
qed


lemma next_player_loop_result:
  assumes "next_player_loop start0 s0 = Some r0"
  shows "(r0 = Inl ZeroDivisionError \<and> players s0 = []) \<or>
         (\<exists>k < length (players s0). r0 = Inr (s0\<lparr>current_player_idx := k\<rparr>))"
proof (rule next_player_loop.raw_induct [where P = "\<lambda>start s r.
         (r = Inl ZeroDivisionError \<and> players s = []) \<or>
         (\<exists>k < length (players s). r = Inr (s\<lparr>current_player_idx := k\<rparr>))", OF _ assms],
       goal_cases)
  case (1 f start s r)
  show ?case
  proof (cases "length (players s) = 0")
    case True
    with 1(2) show ?thesis by simp
  next
    case False
    let ?k = "(current_player_idx s + 1) mod length (players s)"
    have k: "?k < length (players s)" using False by simp
    show ?thesis
    proof (cases "is_active (players s ! ?k) \<or> ?k = start")
      case True
      with 1(2) False have "r = Inr (s\<lparr>current_player_idx := ?k\<rparr>)"
        by (auto split: if_splits)
      with k show ?thesis by blast
    next
      case nt: False
      with 1(2) False have "f start (s\<lparr>current_player_idx := ?k\<rparr>) = Some r" by simp
      from 1(1) [OF this] show ?thesis by auto
    qed
  qed
qed

lemma next_player_result:
  "next_player s = Some (Inr s') \<Longrightarrow>
   \<exists>k < length (players s). s' = s\<lparr>current_player_idx := k\<rparr>"
  using next_player_loop_result [of "current_player_idx s" s "Inr s'"]
  by (auto simp: next_player_def)

lemma next_player_inv:
  assumes "next_player s = Some (Inr s')" "pool C s" "seats Q s"
  shows "pool C s' \<and> seats Q s' \<and> length (players s') = length (players s)"
  using next_player_result [OF assms(1)] assms(2,3) by (auto simp: pool_def seats_def)

lemma round_loop_inv:
  "shuffle_keeps R C \<Longrightarrow> turn_closed Q C \<Longrightarrow> pool C s \<Longrightarrow> seats Q s \<Longrightarrow>
   round_loop R strategies turn_count s = Some (Inr s') \<Longrightarrow>
   pool C s' \<and> seats Q s' \<and> length (players s') = length (players s)"
proof (induction R strategies turn_count s rule: round_loop.induct)
  case (1 R strategies turn_count s)
  note R = \<open>shuffle_keeps R C\<close> and cl = \<open>turn_closed Q C\<close> and pl = \<open>pool C s\<close> and se = \<open>seats Q s\<close>
  note rl = \<open>round_loop R strategies turn_count s = Some (Inr s')\<close>
  show ?case
  proof (cases "(\<exists>p \<in> set (players s). is_active p) \<and> turn_count < 100")
    case False
    with rl have "s' = s" by (subst (asm) round_loop.simps) (auto simp del: round_loop.simps)
    with pl se show ?thesis by simp
  next
    case True
    let ?i = "current_player_idx s"
    from rl True have i: "?i < length (players s)" "?i < length strategies"
      by (subst (asm) round_loop.simps, auto simp del: round_loop.simps split: if_splits)+
    from rl True i obtain b s1 where
      t: "play_turn R (strategies ! ?i) ?i s = Inr (b, s1)"
      by (subst (asm) round_loop.simps) (auto simp del: round_loop.simps split: sum.splits)
    from play_turn_inv [OF R cl pl se t]
    have i1: "pool C s1" "seats Q s1" "length (players s1) = length (players s)" by simp_all
    show ?thesis
    proof (cases b)
      case False
      with rl True i t have "s' = s1"
        by (subst (asm) round_loop.simps) (simp del: round_loop.simps)
      with i1 show ?thesis by simp
    next
      case b: True
      with rl True i t obtain s2 where
        n: "next_player s1 = Some (Inr s2)" and
        r: "round_loop R strategies (turn_count + 1) s2 = Some (Inr s')"
        by (subst (asm) round_loop.simps)
           (auto simp del: round_loop.simps split: option.splits sum.splits)
      from next_player_inv [OF n i1(1,2)]
      have i2: "pool C s2" "seats Q s2" "length (players s2) = length (players s1)" by simp_all
      have "pool C s' \<and> seats Q s' \<and> length (players s') = length (players s2)"
        using True i t b n i2 r R cl
        by (intro 1(1) [of "(b, s1)" b s1 "Inr s2" s2]) simp_all
      with i2 i1 show ?thesis by simp
    qed
  qed
qed


lemma empty_hand_no_bust: "cards p = [] \<Longrightarrow> \<not> would_bust p c"
  by (simp add: would_bust_def get_number_values_def get_number_cards_def)

lemma deal_initial_loop_inv:
  assumes R: "shuffle_keeps R C" and cl: "turn_closed Q C"
  shows "distinct idxs \<Longrightarrow> \<forall>i \<in> set idxs. i < length (players s) \<and> cards (players s ! i) = [] \<Longrightarrow>
         pool C s \<Longrightarrow> seats Q s \<Longrightarrow> deal_initial_loop R idxs s = Inr s' \<Longrightarrow>
         pool C s' \<and> seats Q s' \<and> length (players s') = length (players s)"
proof (induction idxs arbitrary: s)
  case Nil
  then show ?case by simp
next
  case (Cons i rest)
  from Cons.prems(5) obtain c s1 where d: "draw_card R s = Inr (c, s1)"
    by (auto split: sum.splits)
  from draw_card_inv [OF R cl Cons.prems(3) d]
  have c: "C c" and p1: "pool C s1" and ps: "players s1 = players s" by simp_all
  have i: "i < length (players s)" "cards (players s ! i) = []" using Cons.prems(2) by simp_all
  let ?s2 = "s1\<lparr>players := (players s1)[i := take_card (players s1 ! i) c]\<rparr>"
  have h: "deal_initial_loop R rest ?s2 = Inr s'" using Cons.prems(5) d by simp
  have "Q i (take_card (players s ! i) c)"
    using cl Cons.prems(4) i c empty_hand_no_bust [OF i(2), of c]
    by (auto simp: turn_closed_def seats_def)
  from seats_update [OF Cons.prems(4) i(1) this, of ?s2] ps
  have q2: "seats Q ?s2" by simp
  have p2: "pool C ?s2" using p1 by (simp add: pool_def)
  have e2: "\<forall>j \<in> set rest. j < length (players ?s2) \<and> cards (players ?s2 ! j) = []"
    using Cons.prems(1,2) ps by (auto simp: nth_list_update)
  from Cons.IH [OF _ e2 p2 q2 h] Cons.prems(1) ps show ?case by simp
qed

lemma play_round_inv:
  assumes R: "shuffle_keeps R C" and cl: "turn_closed Q C"
    and pl: "pool C s" and se: "\<forall>j < length (players s). Q j (reset_player (players s ! j))"
    and pr: "play_round R strategies s = Some (Inr s')"
  shows "\<exists>s2. s' = add_round_scores s2 \<and> pool C s2 \<and> seats Q s2 \<and>
              length (players s2) = length (players s)"
proof -
  let ?s0 = "s\<lparr>players := map reset_player (players s)\<rparr>"
  from pr obtain s1 s2 where
    d: "deal_initial_cards R ?s0 = Inr s1" and
    r: "round_loop R strategies 0 s1 = Some (Inr s2)" and
    s': "s' = add_round_scores s2"
    by (auto simp: play_round_def split: sum.splits option.splits)
  have "pool C ?s0" using pl by (simp add: pool_def)
  moreover have "seats Q ?s0" using se by (simp add: seats_def)
  moreover have "\<forall>i \<in> set [0..<length (players ?s0)].
      i < length (players ?s0) \<and> cards (players ?s0 ! i) = []"
    by (simp add: reset_player_def)
  ultimately have "pool C s1 \<and> seats Q s1 \<and> length (players s1) = length (players ?s0)"
    using deal_initial_loop_inv [OF R cl _ _ _ _ d [unfolded deal_initial_cards_def]]
    by simp
  with round_loop_inv [OF R cl _ _ r] s' show ?thesis by auto
qed

section \<open>Well-formed cards\<close>

lemma wf_card_face: "wf_card (face c) = wf_card c"
  by (cases "card_type c"; cases "modifier_value c"; cases "value_c c")
     (simp_all add: wf_card_def face_def)

lemma wf_card_value: "wf_card c \<Longrightarrow> card_type c = NUMBER \<Longrightarrow> 0 \<le> the (value_c c)"
  by (auto simp: wf_card_def split: option.splits)

lemma wf_card_modifier: "wf_card c \<Longrightarrow> card_type c = MODIFIER \<Longrightarrow> 0 \<le> the (modifier_value c)"
  by (auto simp: wf_card_def split: option.splits)

lemma take_card_fields [simp]:
  "cards (take_card p c) = cards p @ [c]"
  "score (take_card p c) = score p"
  "round_score (take_card p c) = round_score p"
  by (simp_all add: take_card_def Let_def)

lemma wf_card_scorable: "wf_card c \<Longrightarrow> scorable c"
  by (cases "card_type c") (auto simp: wf_card_def scorable_def split: option.splits)

lemma in_concat_replicate:
  "x \<in> set (concat (map (\<lambda>v. replicate (g v) (h v)) vs)) \<Longrightarrow> \<exists>v \<in> set vs. x = h v"
  by (induction vs) (auto split: if_splits)

lemma wf_Number: "0 \<le> v \<Longrightarrow> v \<le> 12 \<Longrightarrow> wf_card (Number v)"
  by (simp add: wf_card_def Number_def number_card_def)

lemma mini_deck_wf: "c \<in> set (mini_deck k) \<Longrightarrow> wf_card c"
proof -
  assume "c \<in> set (mini_deck k)"
  then have "face c \<in> set (map face (mini_deck k))" by simp
  then have "face c \<in> set (concat (map (\<lambda>v. replicate (max 1 (v div 2)) (Number (int v))) [0..<13]))"
    unfolding mini_deck_def fold_append_emergency by simp
  from in_concat_replicate [OF this] obtain v where "v < 13" "face c = Number (int v)"
    by auto
  then have "wf_card (face c)" using wf_Number [of "int v"] by simp
  then show ?thesis by (simp add: wf_card_face)
qed

lemma foldl_mult_nonneg: "0 \<le> (t::int) \<Longrightarrow> \<forall>x \<in> set xs. 0 \<le> x \<Longrightarrow> 0 \<le> foldl (*) t xs"
  by (induction xs arbitrary: t) simp_all

lemma foldl_add_nonneg: "0 \<le> (t::int) \<Longrightarrow> \<forall>x \<in> set xs. 0 \<le> x \<Longrightarrow> 0 \<le> foldl (+) t xs"
  by (induction xs arbitrary: t) simp_all

lemma score_spec_nonneg:
  assumes "\<forall>c \<in> set hand. wf_card c"
  shows "0 \<le> score_spec hand f"
proof -
  have n: "\<forall>x \<in> set (number_amounts hand). 0 \<le> x"
    using assms by (auto simp: number_amounts_def wf_card_value)
  have m: "\<forall>x \<in> set (multiply_amounts hand). 0 \<le> x"
    using assms by (auto simp: multiply_amounts_def wf_card_modifier)
  have a: "\<forall>x \<in> set (add_amounts hand). 0 \<le> x"
    using assms by (auto simp: add_amounts_def wf_card_modifier)
  have "0 \<le> sum_list (number_amounts hand)" using n by (simp add: sum_list_nonneg)
  from foldl_add_nonneg [OF foldl_mult_nonneg [OF this m] a] show ?thesis
    by (simp add: score_spec_def)
qed

lemma calculate_score_nonneg:
  assumes "\<forall>c \<in> set (cards p). wf_card c" "calculate_score p f = Inr sc"
  shows "0 \<le> sc"
  using calculate_score_scorable [of p f] score_spec_nonneg [OF assms(1), of f] assms
  by (auto simp: wf_card_scorable)

lemma turn_closed_wf:
  "turn_closed (\<lambda>j p. 0 \<le> round_score p \<and> (\<forall>c \<in> set (cards p). wf_card c) \<and> score p = f j)
     wf_card"
  unfolding turn_closed_def
proof (intro conjI allI impI ballI)
  fix j p g sc
  assume "(0 \<le> round_score p \<and> (\<forall>c \<in> set (cards p). wf_card c) \<and> score p = f j) \<and>
          calculate_score p g = Inr sc"
  then show "0 \<le> round_score (p\<lparr>round_score := sc, is_active := False\<rparr>)"
    using calculate_score_nonneg [of p g sc] by simp
qed (auto simp: mini_deck_wf)

section \<open>Rounds return\<close>

lemma draw_card_random_ok:
  assumes "random_ok R"
  shows "\<exists>c s1. draw_card R s = Inr (c, s1) \<and> players s1 = players s \<and>
           current_player_idx s1 = current_player_idx s"
proof -
  have sh: "mset (shuffle R k xs) = mset xs" for k xs
    using assms by (simp add: random_ok_def)
  have ne: "shuffle R k xs \<noteq> []" if "xs \<noteq> []" for k xs
    using sh [of k xs] that by (metis mset_zero_iff)
  have em: "mini_deck cid \<noteq> []" for cid
    using mini_deck_faces [of cid] size_emergency_deck_spec by auto
  have "deck (refill_emergency R (refill_from_discard R s)) \<noteq> []"
    using ne em by (simp add: refill_emergency_def refill_from_discard_def)
  then show ?thesis
    by (simp add: draw_card_def Let_def refill_emergency_def refill_from_discard_def)
qed

lemma hit_batch_returns:
  assumes "random_ok R"
  shows "\<exists>b s'. hit_batch R i n s = Inr (b, s') \<and> current_player_idx s' = current_player_idx s"
proof (induction n arbitrary: s)
  case 0
  then show ?case by auto
next
  case (Suc n)
  from draw_card_random_ok [OF assms, of s] obtain c s1 where
    d: "draw_card R s = Inr (c, s1)" and ci: "current_player_idx s1 = current_player_idx s"
    by blast
  show ?case
  proof (cases "would_bust (players s1 ! i) c")
    case True
    then show ?thesis
      using d ci Suc.IH [of "s1\<lparr>players := (players s1)[i := (players s1 ! i)\<lparr>has_second_chance := False\<rparr>],
                    discard_pile := discard_pile s1 @ [c]\<rparr>"]
      by (cases "has_second_chance (players s1 ! i)") auto
  next
    case False
    then show ?thesis
      using d ci Suc.IH [of "s1\<lparr>players := (players s1)[i := take_card (players s1 ! i) c]\<rparr>"]
      by simp
  qed
qed

lemma deal_initial_loop_returns:
  assumes "random_ok R"
  shows "\<exists>s'. deal_initial_loop R idxs s = Inr s' \<and> current_player_idx s' = current_player_idx s"
proof (induction idxs arbitrary: s)
  case Nil
  then show ?case by simp
next
  case (Cons i rest)
  from draw_card_random_ok [OF assms, of s] obtain c s1 where
    d: "draw_card R s = Inr (c, s1)" and ci: "current_player_idx s1 = current_player_idx s"
    by blast
  with Cons.IH [of "s1\<lparr>players := (players s1)[i := take_card (players s1 ! i) c]\<rparr>"]
  show ?case by simp
qed

lemma bank_score_returns:
  assumes "\<forall>c \<in> set (cards (players s ! i)). scorable c"
  shows "\<exists>s'. bank_score f i s = Inr s' \<and> current_player_idx s' = current_player_idx s"
  using bank_score_scorable [OF assms, of f] by simp

lemma turn_closed_scorable:
  "turn_closed (\<lambda>j p. \<forall>c \<in> set (cards p). scorable c) scorable"
  by (auto simp: turn_closed_def wf_card_scorable mini_deck_wf)

lemma play_turn_returns:
  assumes R: "random_ok R" and i: "i < length (players s)"
    and pl: "pool scorable s" and se: "seats (\<lambda>j p. \<forall>c \<in> set (cards p). scorable c) s"
    and an: "answers strategy"
  shows "\<exists>b s'. play_turn R strategy i s = Inr (b, s') \<and>
           current_player_idx s' = current_player_idx s"
proof -
  let ?p = "players s ! i"
  have sc: "\<forall>c \<in> set (cards ?p). scorable c" using se i by (simp add: seats_def)
  from an sc obtain hit where sh: "should_hit strategy ?p s = Inr hit"
    unfolding answers_def by blast
  let ?n = "if has_flip_three_active ?p then 3 else 1"
  from hit_batch_returns [OF R, of i ?n s] obtain bu s1 where
    hb: "hit_batch R i ?n s = Inr (bu, s1)" and c1: "current_player_idx s1 = current_player_idx s"
    by blast
  from hit_batch_inv [OF shuffle_keeps_random_ok [OF R] turn_closed_scorable i pl se hb]
  have "seats (\<lambda>j p. \<forall>c \<in> set (cards p). scorable c) s1" "length (players s1) = length (players s)"
    by simp_all
  then have sc1: "\<forall>c \<in> set (cards (players s1 ! i)). scorable c" using i by (simp add: seats_def)
  from bank_score_returns [OF sc, of True] obtain sA where
    bA: "bank_score True i s = Inr sA" "current_player_idx sA = current_player_idx s" by blast
  from bank_score_returns [OF sc, of False] obtain sB where
    bB: "bank_score False i s = Inr sB" "current_player_idx sB = current_player_idx s" by blast
  from bank_score_returns [OF sc1, of True] obtain sC where
    bC: "bank_score True i s1 = Inr sC" "current_player_idx sC = current_player_idx s1" by blast
  from bA bB bC sh hb c1 i show ?thesis
    by (auto simp: play_turn_def Let_def simp del: hit_batch.simps)
qed


lemma round_loop_returns:
  "random_ok R \<Longrightarrow> pool scorable s \<Longrightarrow> seats (\<lambda>j p. \<forall>c \<in> set (cards p). scorable c) s \<Longrightarrow>
   current_player_idx s < length (players s) \<Longrightarrow> length (players s) \<le> length strategies \<Longrightarrow>
   \<forall>st \<in> set strategies. answers st \<Longrightarrow>
   \<exists>s'. round_loop R strategies turn_count s = Some (Inr s')"
proof (induction R strategies turn_count s rule: round_loop.induct)
  case (1 R strategies turn_count s)
  note R = \<open>random_ok R\<close> and pl = \<open>pool scorable s\<close>
    and se = \<open>seats (\<lambda>j p. \<forall>c \<in> set (cards p). scorable c) s\<close>
    and i = \<open>current_player_idx s < length (players s)\<close>
    and l = \<open>length (players s) \<le> length strategies\<close>
    and an = \<open>\<forall>st \<in> set strategies. answers st\<close>
  let ?i = "current_player_idx s"
  show ?case
  proof (cases "(\<exists>p \<in> set (players s). is_active p) \<and> turn_count < 100")
    case False
    then show ?thesis by (subst round_loop.simps) auto
  next
    case True
    have a: "answers (strategies ! ?i)" using an i l by simp
    from play_turn_returns [OF R i pl se a] obtain b s1 where
      t: "play_turn R (strategies ! ?i) ?i s = Inr (b, s1)" and
      c1: "current_player_idx s1 = ?i"
      by blast
    from play_turn_inv [OF shuffle_keeps_random_ok [OF R] turn_closed_scorable pl se t]
    have i1: "pool scorable s1" "seats (\<lambda>j p. \<forall>c \<in> set (cards p). scorable c) s1"
      "length (players s1) = length (players s)" by simp_all
    show ?thesis
    proof (cases b)
      case False
      with True i l t show ?thesis by (subst round_loop.simps) auto
    next
      case b: True
      from next_player_total [of s1] c1 i i1(3) obtain k where
        k: "k < length (players s1)" and
        n: "next_player s1 = Some (Inr (s1\<lparr>current_player_idx := k\<rparr>))"
        by auto
      let ?s2 = "s1\<lparr>current_player_idx := k\<rparr>"
      have "\<exists>s'. round_loop R strategies (turn_count + 1) ?s2 = Some (Inr s')"
        using True i l t b n k i1 R an
        by (intro 1(1) [of "(b, s1)" b s1 "Inr ?s2" ?s2]) (simp_all add: pool_def seats_def)
      with True i l t b n show ?thesis by (subst round_loop.simps) auto
    qed
  qed
qed

lemma play_round_returns:
  assumes R: "random_ok R" and pl: "pool scorable s"
    and i: "current_player_idx s < length (players s)"
    and l: "length (players s) \<le> length strategies"
    and an: "\<forall>st \<in> set strategies. answers st"
  shows "\<exists>s'. play_round R strategies s = Some (Inr s')"
proof -
  let ?s0 = "s\<lparr>players := map reset_player (players s)\<rparr>"
  let ?Q = "\<lambda>(j::nat) p. \<forall>c \<in> set (cards p). scorable c"
  from deal_initial_loop_returns [OF R, of "[0..<length (players ?s0)]" ?s0] obtain s1 where
    d: "deal_initial_cards R ?s0 = Inr s1" and c1: "current_player_idx s1 = current_player_idx s"
    by (auto simp: deal_initial_cards_def)
  have "pool scorable ?s0" using pl by (simp add: pool_def)
  moreover have "seats ?Q ?s0" by (simp add: seats_def reset_player_def)
  moreover have "\<forall>i \<in> set [0..<length (players ?s0)].
      i < length (players ?s0) \<and> cards (players ?s0 ! i) = []"
    by (simp add: reset_player_def)
  ultimately have i1: "pool scorable s1 \<and> seats ?Q s1 \<and> length (players s1) = length (players ?s0)"
    using deal_initial_loop_inv [OF shuffle_keeps_random_ok [OF R] turn_closed_scorable _ _ _ _
        d [unfolded deal_initial_cards_def]]
    by simp
  from round_loop_returns [of R s1 strategies 0] i1 c1 R i l an
  obtain s2 where "round_loop R strategies 0 s1 = Some (Inr s2)" by auto
  with d show ?thesis by (simp add: play_round_def)
qed

lemma answers_CardCountStrategy: "answers (CardCountStrategy n sc)"
  by (simp add: answers_def CardCountStrategy_def Let_def)

lemma answers_PointThresholdStrategy: "answers (PointThresholdStrategy n)"
  using calculate_score_scorable
  by (simp add: answers_def PointThresholdStrategy_def)

lemma answers_BustProbabilityStrategy: "answers (BustProbabilityStrategy rnd p sc)"
proof -
  have "None \<notin> set (get_number_values q)" if "\<forall>c \<in> set (cards q). scorable c" for q
    using that by (auto simp: get_number_values_def get_number_cards_def scorable_def)
  then show ?thesis
    by (auto simp: answers_def BustProbabilityStrategy_def BustProbabilityStrategy_should_hit_def
        Let_def py_sum_set_def)
qed

section \<open>The match\<close>

lemma find_winner_first:
  "k < length ps \<Longrightarrow> 200 \<le> score (ps ! k) \<Longrightarrow> \<forall>j < k. score (ps ! j) < 200 \<Longrightarrow>
   find_winner i ps = Some (i + k)"
proof (induction ps arbitrary: i k)
  case Nil
  then show ?case by simp
next
  case (Cons p ps)
  show ?case
  proof (cases k)
    case 0
    with Cons.prems show ?thesis by simp
  next
    case (Suc k')
    have "\<not> 200 \<le> score p" using Cons.prems(3) Suc by fastforce
    moreover have "find_winner (i + 1) ps = Some (i + 1 + k')"
      using Cons.prems Suc by (intro Cons.IH) auto
    ultimately show ?thesis using Suc by simp
  qed
qed

lemma find_winner_None: "find_winner i ps = None \<longleftrightarrow> (\<forall>p \<in> set ps. score p < 200)"
  by (induction ps arbitrary: i) auto

lemma turn_closed_score: "turn_closed (\<lambda>j p. score p = f j) (\<lambda>c. True)"
  by (simp add: turn_closed_def take_card_def Let_def)

lemma match_round_step:
  assumes ng: "\<not> game_over s"
    and pr: "play_round R strategies s = Some (Inr s1)"
  shows "length (players s1) = length (players s) \<and>
    (\<forall>j < length (players s).
       score (players s1 ! j) = score (players s ! j) + round_score (players s1 ! j)) \<and>
    (\<forall>w. w < length (players s1) \<and> 200 \<le> score (players s1 ! w) \<and>
         (\<forall>j < w. score (players s1 ! j) < 200) \<longrightarrow>
         play_game_loop R strategies s =
           Some (Inr (Some w, s1\<lparr>game_over := True, winner := Some w\<rparr>))) \<and>
    ((\<forall>p \<in> set (players s1). score p < 200) \<and> players s1 \<noteq> [] \<longrightarrow>
         play_game_loop R strategies s = play_game_loop R strategies (next_round s1))"
proof -
  from play_round_inv [OF shuffle_keeps_True turn_closed_score [of "\<lambda>j. score (players s ! j)"] _ _ pr]
  obtain s2 where s1: "s1 = add_round_scores s2"
    and q: "seats (\<lambda>j p. score p = score (players s ! j)) s2"
    and l: "length (players s2) = length (players s)"
    by (auto simp: pool_def reset_player_def)
  have a: "length (players s1) = length (players s)"
    using s1 l by (simp add: add_round_scores_def)
  have b: "\<forall>j < length (players s).
       score (players s1 ! j) = score (players s ! j) + round_score (players s1 ! j)"
    using s1 l q by (simp add: add_round_scores_def seats_def)
  have c: "play_game_loop R strategies s =
           Some (Inr (Some w, s1\<lparr>game_over := True, winner := Some w\<rparr>))"
    if "w < length (players s1)" "200 \<le> score (players s1 ! w)"
       "\<forall>j < w. score (players s1 ! j) < 200" for w
  proof -
    have "find_winner 0 (players s1) = Some w"
      using find_winner_first [OF that, of 0] by simp
    then show ?thesis
      using ng pr by (subst play_game_loop.simps) simp
  qed
  have d: "play_game_loop R strategies s = play_game_loop R strategies (next_round s1)"
    if "\<forall>p \<in> set (players s1). score p < 200" "players s1 \<noteq> []"
  proof -
    have "find_winner 0 (players s1) = None"
      using that by (simp add: find_winner_None)
    then show ?thesis
      using ng pr that by (subst play_game_loop.simps) simp
  qed
  from a b c d show ?thesis by blast
qed

lemma close_match_play_round:
  "play_round R_id [CardCountStrategy 1 False, CardCountStrategy 1 False] close_match =
     Some (Inr close_match_round)"
  by code_simp

text \<open>
  Claim C7. A round returns (with a permuting shuffle, cards that can be scored, the
  current index inside the list and strategies that answer), and a round that returns
  has added each player's round score to that player's total. If then some player's
  total is at least 200, the first such player in list order is the winner and
  \<open>play_game\<close> returns with that round's state (no further round); if every total is
  below 200, the match goes on with another round.
\<close>

theorem match_round_and_winner:
  assumes ng: "\<not> game_over s"
  shows "(random_ok R \<and> pool scorable s \<and> current_player_idx s < length (players s) \<and>
          length (players s) \<le> length strategies \<and> (\<forall>st \<in> set strategies. answers st) \<longrightarrow>
            (\<exists>s'. play_round R strategies s = Some (Inr s'))) \<and>
    (play_round R strategies s = Some (Inr s1) \<longrightarrow>
       length (players s1) = length (players s) \<and>
       (\<forall>j < length (players s).
          score (players s1 ! j) = score (players s ! j) + round_score (players s1 ! j)) \<and>
       (\<forall>w. w < length (players s1) \<and> 200 \<le> score (players s1 ! w) \<and>
            (\<forall>j < w. score (players s1 ! j) < 200) \<longrightarrow>
            play_game_loop R strategies s =
              Some (Inr (Some w, s1\<lparr>game_over := True, winner := Some w\<rparr>))) \<and>
       ((\<forall>p \<in> set (players s1). score p < 200) \<and> players s1 \<noteq> [] \<longrightarrow>
            play_game_loop R strategies s = play_game_loop R strategies (next_round s1)))"
  using play_round_returns [of R s strategies] match_round_step [OF ng, of R strategies s1]
  by blast

theorem match_round_and_winner_witness:
  "\<not> game_over close_match \<and> random_ok R_id \<and> pool scorable close_match \<and>
   list_all answers [CardCountStrategy 1 False, CardCountStrategy 1 False] \<and>
   play_round R_id [CardCountStrategy 1 False, CardCountStrategy 1 False] close_match =
     Some (Inr close_match_round) \<and>
   map score (players close_match) = [195, 199] \<and>
   map round_score (players close_match_round) = [7, 9] \<and>
   map score (players close_match_round) = [202, 208] \<and>
   play_game_loop R_id [CardCountStrategy 1 False, CardCountStrategy 1 False] close_match =
     Some (Inr (Some 0, close_match_round\<lparr>game_over := True, winner := Some 0\<rparr>))"
proof -
  have ng: "\<not> game_over close_match"
    by (simp add: close_match_def table_def)
  have sc: "map score (players close_match) = [195, 199]"
    "map round_score (players close_match_round) = [7, 9]"
    "map score (players close_match_round) = [202, 208]"
    by (simp_all add: close_match_def close_match_round_def table_def player_holding_def)
  have w: "0 < length (players close_match_round) \<and> 200 \<le> score (players close_match_round ! 0) \<and>
        (\<forall>j < 0. score (players close_match_round ! j) < 200)"
    by (simp add: close_match_round_def table_def player_holding_def)
  have h: "pool scorable close_match"
    "list_all answers [CardCountStrategy 1 False, CardCountStrategy 1 False]"
    by (simp_all add: pool_def close_match_def table_def num_def number_card_def scorable_def
        answers_CardCountStrategy)
  from match_round_and_winner [OF ng, of R_id "[CardCountStrategy 1 False, CardCountStrategy 1 False]"
      close_match_round] close_match_play_round w
  have "play_game_loop R_id [CardCountStrategy 1 False, CardCountStrategy 1 False] close_match =
     Some (Inr (Some 0, close_match_round\<lparr>game_over := True, winner := Some 0\<rparr>))"
    by blast
  with ng sc h random_ok_R_id close_match_play_round show ?thesis by simp
qed

section \<open>Scores over a match\<close>

lemma play_round_scores:
  assumes R: "random_ok R" and pl: "pool wf_card s"
    and pr: "play_round R strategies s = Some (Inr s')"
  shows "pool wf_card s' \<and> length (players s') = length (players s) \<and>
         (\<forall>j < length (players s).
            0 \<le> round_score (players s' ! j) \<and>
            score (players s' ! j) = score (players s ! j) + round_score (players s' ! j) \<and>
            score (players s ! j) \<le> score (players s' ! j))"
proof -
  let ?Q = "\<lambda>j p. 0 \<le> round_score p \<and> (\<forall>c \<in> set (cards p). wf_card c) \<and>
                   score p = score (players s ! j)"
  have "\<forall>j < length (players s). ?Q j (reset_player (players s ! j))"
    by (simp add: reset_player_def)
  from play_round_inv [OF shuffle_keeps_random_ok [OF R] turn_closed_wf pl this pr]
  obtain s2 where s': "s' = add_round_scores s2" and p2: "pool wf_card s2"
    and q: "seats ?Q s2" and l: "length (players s2) = length (players s)"
    by blast
  have "pool wf_card s'" using s' p2 by (simp add: pool_def add_round_scores_def)
  moreover have "length (players s') = length (players s)"
    using s' l by (simp add: add_round_scores_def)
  moreover have "\<forall>j < length (players s).
            0 \<le> round_score (players s' ! j) \<and>
            score (players s' ! j) = score (players s ! j) + round_score (players s' ! j) \<and>
            score (players s ! j) \<le> score (players s' ! j)"
    using s' l q by (simp add: add_round_scores_def seats_def)
  ultimately show ?thesis by blast
qed

lemma play_game_loop_scores:
  assumes "play_game_loop R0 strategies0 s0 = Some r0"
  shows "random_ok R0 \<longrightarrow> pool wf_card s0 \<longrightarrow>
         (\<forall>w sf. r0 = Inr (w, sf) \<longrightarrow>
            length (players sf) = length (players s0) \<and>
            (\<forall>j < length (players s0). score (players s0 ! j) \<le> score (players sf ! j)))"
proof (rule play_game_loop.raw_induct [where P = "\<lambda>R strategies s r.
         random_ok R \<longrightarrow> pool wf_card s \<longrightarrow>
         (\<forall>w sf. r = Inr (w, sf) \<longrightarrow>
            length (players sf) = length (players s) \<and>
            (\<forall>j < length (players s). score (players s ! j) \<le> score (players sf ! j)))",
         OF _ assms], goal_cases)
  case (1 f R strategies s r)
  show ?case
  proof (intro impI allI)
    fix w sf
    assume R: "random_ok R" and pl: "pool wf_card s" and r: "r = Inr (w, sf)"
    show "length (players sf) = length (players s) \<and>
            (\<forall>j < length (players s). score (players s ! j) \<le> score (players sf ! j))"
    proof (cases "game_over s")
      case True
      with 1(2) r show ?thesis by simp
    next
      case False
      with 1(2) r obtain s1 where pr: "play_round R strategies s = Some (Inr s1)"
        by (auto split: option.splits sum.splits)
      note ps = play_round_scores [OF R pl pr]
      show ?thesis
      proof (cases "find_winner 0 (players s1)")
        case (Some w')
        with 1(2) r False pr have "sf = s1\<lparr>game_over := True, winner := Some w'\<rparr>" by auto
        with ps show ?thesis by simp
      next
        case None
        with 1(2) r False pr have rec: "f R strategies (next_round s1) = Some (Inr (w, sf))"
          by (auto split: if_splits)
        have "pool wf_card (next_round s1)" using ps by (simp add: pool_def next_round_def)
        with 1(1) [OF rec] R
        have "length (players sf) = length (players (next_round s1)) \<and>
            (\<forall>j < length (players (next_round s1)).
               score (players (next_round s1) ! j) \<le> score (players sf ! j))"
          by blast
        with ps show ?thesis by (fastforce simp: next_round_def)
      qed
    qed
  qed
qed

lemma base_list_wf: "list_all wf_card base_list"
  by code_simp

lemma create_deck_wf:
  assumes "random_ok R" "c \<in> set (create_deck R k n)"
  shows "wf_card c"
proof -
  let ?d = "fst ((deck_copy ^^ nat (num_decks_for n)) ([], 0))"
  have "c \<in> set ?d" using assms shuffle_set by (simp add: create_deck_def)
  then have "face c \<in> set (map face ?d)" by simp
  then have "face c \<in> set base_list"
    unfolding deck_copies_faces by (auto split: if_splits)
  then have "wf_card (face c)" using base_list_wf by (simp add: list_all_iff)
  then show ?thesis by (simp add: wf_card_face)
qed

lemma initialize_game_state:
  assumes "random_ok R" "initialize_game R strategies k = Inr s"
  shows "pool wf_card s \<and> length (players s) = length strategies \<and>
         (\<forall>j < length strategies. score (players s ! j) = 0) \<and> \<not> game_over s"
  using assms create_deck_wf [OF assms(1)]
  by (auto simp: initialize_game_def Let_def pool_def new_player_def nth_enumerate_eq
      split: if_splits)

lemma play_game_scores_nonneg:
  assumes R: "random_ok R" and g: "play_game R strategies k = Some (Inr (w, sf))"
  shows "length (players sf) = length strategies \<and>
         (\<forall>j < length strategies. 0 \<le> score (players sf ! j))"
proof -
  from g obtain s0 where i: "initialize_game R strategies k = Inr s0"
    and l: "play_game_loop R strategies s0 = Some (Inr (w, sf))"
    by (auto simp: play_game_def split: sum.splits)
  from initialize_game_state [OF R i] play_game_loop_scores [OF l] R
  show ?thesis by fastforce
qed

text \<open>
  Claim C9. From a state whose deck and discard pile hold well-formed cards, a round
  that returns leaves every round score non-negative and every total equal to the old
  total plus that round score, hence not smaller; the cards stay well-formed, so the
  same holds round after round, and over the rounds of a match that returns no total
  has decreased. (Rounds do return: lemma \<open>play_round_returns\<close>.)
\<close>

theorem total_score_never_decreases:
  assumes R: "random_ok R" and pl: "pool wf_card s"
  shows "(play_round R strategies s = Some (Inr s') \<longrightarrow>
            pool wf_card s' \<and> length (players s') = length (players s) \<and>
            (\<forall>j < length (players s).
               0 \<le> round_score (players s' ! j) \<and>
               score (players s' ! j) = score (players s ! j) + round_score (players s' ! j) \<and>
               score (players s ! j) \<le> score (players s' ! j))) \<and>
         (play_game_loop R strategies s = Some (Inr (w, sf)) \<longrightarrow>
            length (players sf) = length (players s) \<and>
            (\<forall>j < length (players s). score (players s ! j) \<le> score (players sf ! j)))"
  using play_round_scores [OF R pl, of strategies s']
    play_game_loop_scores [of R strategies s "Inr (w, sf)"] R pl
  by blast

lemma close_match_play_game_loop:
  "play_game_loop R_id [CardCountStrategy 1 False, CardCountStrategy 1 False] close_match =
     Some (Inr (Some 0, close_match_round\<lparr>game_over := True, winner := Some 0\<rparr>))"
  by code_simp

theorem total_score_never_decreases_witness:
  "random_ok R_id \<and> pool wf_card close_match \<and>
   play_round R_id [CardCountStrategy 1 False, CardCountStrategy 1 False] close_match =
     Some (Inr close_match_round) \<and>
   play_game_loop R_id [CardCountStrategy 1 False, CardCountStrategy 1 False] close_match =
     Some (Inr (Some 0, close_match_round\<lparr>game_over := True, winner := Some 0\<rparr>)) \<and>
   pool wf_card close_match_round \<and>
   map score (players close_match) = [195, 199] \<and>
   map round_score (players close_match_round) = [7, 9] \<and>
   map score (players close_match_round) = [202, 208]"
proof -
  have pl: "pool wf_card close_match"
    by (simp add: pool_def close_match_def table_def num_def number_card_def wf_card_def)
  have sc: "map score (players close_match) = [195, 199]"
    "map round_score (players close_match_round) = [7, 9]"
    "map score (players close_match_round) = [202, 208]"
    by (simp_all add: close_match_def close_match_round_def table_def player_holding_def)
  from total_score_never_decreases [OF random_ok_R_id pl,
      of "[CardCountStrategy 1 False, CardCountStrategy 1 False]" close_match_round]
    close_match_play_round
  have "pool wf_card close_match_round" by simp
  with pl sc random_ok_R_id close_match_play_round close_match_play_game_loop
  show ?thesis by simp
qed

section \<open>Hands of reachable states\<close>

lemma seven_deck_dealt:
  "deal_initial_cards R_id (seven_deck_table\<lparr>players := map reset_player (players seven_deck_table)\<rparr>)
     = Inr (table [player_holding [num 0]] [num 6, num 5, num 4, num 3, num 2, num 1] [])"
  by code_simp

lemma seven_deck_round:
  "round_loop R_id [CardCountStrategy 7 False] 0
     (table [player_holding [num 0]] [num 6, num 5, num 4, num 3, num 2, num 1] [])
     = Some (Inr seven_held_table)"
  by code_simp


lemma number_values_take_card:
  "get_number_values (take_card p c) =
   get_number_values p @ (if card_type c = NUMBER then [value_c c] else [])"
  by (simp add: get_number_values_def get_number_cards_def)

lemma turn_closed_distinct:
  "turn_closed (\<lambda>j p. distinct (get_number_values p)) (\<lambda>c. True)"
  by (auto simp: turn_closed_def number_values_take_card would_bust_def)
     (simp_all add: get_number_values_def get_number_cards_def)

lemma reachable_hands:
  assumes "reachable R s"
  shows "seats (\<lambda>j p. distinct (get_number_values p)) s"
  using assms
proof (induction rule: reachable.induct)
  case (start strategies k s)
  then show ?case
    by (auto simp: initialize_game_def Let_def seats_def new_player_def nth_enumerate_eq
        get_number_values_def get_number_cards_def split: if_splits)
next
  case (dealt s s')
  let ?s0 = "s\<lparr>players := map reset_player (players s)\<rparr>"
  have "seats (\<lambda>j p. distinct (get_number_values p)) ?s0"
    by (simp add: seats_def reset_player_def get_number_values_def get_number_cards_def)
  moreover have "\<forall>i \<in> set [0..<length (players ?s0)].
      i < length (players ?s0) \<and> cards (players ?s0 ! i) = []"
    by (simp add: reset_player_def)
  ultimately show ?case
    using deal_initial_loop_inv [OF shuffle_keeps_True turn_closed_distinct _ _ _ _
        dealt [unfolded deal_initial_cards_def]]
    by (simp add: pool_def)
next
  case (hit s i n b s')
  from hit_batch_inv [OF shuffle_keeps_True turn_closed_distinct hit(2) _ hit(4) hit(3)]
  show ?case by (simp add: pool_def)
next
  case (turn s strategy i b s')
  from play_turn_inv [OF shuffle_keeps_True turn_closed_distinct _ turn(3) turn(2)]
  show ?case by (simp add: pool_def)
next
  case (moved s s')
  from next_player_inv [OF moved(2) _ moved(3), of "\<lambda>c. True"]
  show ?case by (simp add: pool_def)
next
  case (scored s)
  then show ?case
    by (simp add: seats_def add_round_scores_def get_number_values_def get_number_cards_def)
next
  case (won s w)
  then show ?case by (simp add: seats_def)
next
  case (advanced s)
  then show ?case by (simp add: seats_def next_round_def)
qed

lemma deal_initial_loop_one_card:
  "distinct idxs \<Longrightarrow> \<forall>i \<in> set idxs. i < length (players s) \<Longrightarrow>
   deal_initial_loop R idxs s = Inr s' \<Longrightarrow>
   length (players s') = length (players s) \<and>
   (\<forall>j < length (players s).
      length (cards (players s' ! j)) =
        length (cards (players s ! j)) + (if j \<in> set idxs then 1 else 0))"
proof (induction idxs arbitrary: s)
  case Nil
  then show ?case by simp
next
  case (Cons i rest)
  from Cons.prems(3) obtain c s1 where d: "draw_card R s = Inr (c, s1)"
    by (auto split: sum.splits)
  have ps: "players s1 = players s" using d by (rule draw_card_players)
  let ?s2 = "s1\<lparr>players := (players s1)[i := take_card (players s1 ! i) c]\<rparr>"
  have h: "deal_initial_loop R rest ?s2 = Inr s'" using Cons.prems(3) d by simp
  have "\<forall>j \<in> set rest. j < length (players ?s2)" using Cons.prems(2) ps by simp
  from Cons.IH [OF _ this h] Cons.prems(1,2) ps show ?case
    by (auto simp: nth_list_update)
qed

lemma deal_initial_cards_one_card:
  assumes "deal_initial_cards R (s\<lparr>players := map reset_player (players s)\<rparr>) = Inr s'"
    and "p \<in> set (players s')"
  shows "length (cards p) = 1"
proof -
  let ?s0 = "s\<lparr>players := map reset_player (players s)\<rparr>"
  from deal_initial_loop_one_card [OF _ _ assms(1) [unfolded deal_initial_cards_def]]
  have "length (players s') = length (players s)"
    and "\<forall>j < length (players s). length (cards (players s' ! j)) = 1"
    by (simp_all add: reset_player_def)
  with assms(2) show ?thesis by (metis in_set_conv_nth)
qed

lemma reachable_round_loop:
  "reachable R s \<Longrightarrow> round_loop R strategies turn_count s = Some (Inr s') \<Longrightarrow> reachable R s'"
proof (induction R strategies turn_count s rule: round_loop.induct)
  case (1 R strategies turn_count s)
  note re = \<open>reachable R s\<close>
  note rl = \<open>round_loop R strategies turn_count s = Some (Inr s')\<close>
  show ?case
  proof (cases "(\<exists>p \<in> set (players s). is_active p) \<and> turn_count < 100")
    case False
    with rl have "s' = s" by (subst (asm) round_loop.simps) auto
    with re show ?thesis by simp
  next
    case True
    let ?i = "current_player_idx s"
    from rl True have i: "?i < length (players s)" "?i < length strategies"
      by (subst (asm) round_loop.simps, auto split: if_splits)+
    from rl True i obtain b s1 where
      t: "play_turn R (strategies ! ?i) ?i s = Inr (b, s1)"
      by (subst (asm) round_loop.simps) (auto split: sum.splits)
    have r1: "reachable R s1" using re t by (rule reachable.turn)
    show ?thesis
    proof (cases b)
      case False
      with rl True i t have "s' = s1" by (subst (asm) round_loop.simps) simp
      with r1 show ?thesis by simp
    next
      case b: True
      with rl True i t obtain s2 where
        n: "next_player s1 = Some (Inr s2)" and
        r: "round_loop R strategies (turn_count + 1) s2 = Some (Inr s')"
        by (subst (asm) round_loop.simps) (auto split: option.splits sum.splits)
      have r2: "reachable R s2" using r1 n by (rule reachable.moved)
      show ?thesis
        using True i t b n r2 r
        by (intro 1(1) [of "(b, s1)" b s1 "Inr s2" s2]) simp_all
    qed
  qed
qed

lemma reachable_play_round:
  assumes "play_round R strategies s = Some (Inr s')"
  shows "reachable R s'"
proof -
  from assms obtain s1 s2 where
    d: "deal_initial_cards R (s\<lparr>players := map reset_player (players s)\<rparr>) = Inr s1" and
    r: "round_loop R strategies 0 s1 = Some (Inr s2)" and
    s': "s' = add_round_scores s2"
    by (auto simp: play_round_def split: sum.splits option.splits)
  from reachable.dealt [OF d] r have "reachable R s2" by (rule reachable_round_loop)
  then show ?thesis unfolding s' by (rule reachable.scored)
qed

lemma reachable_play_game_loop:
  assumes "play_game_loop R0 strategies0 s0 = Some r0"
  shows "reachable R0 s0 \<longrightarrow> (\<forall>w sf. r0 = Inr (w, sf) \<longrightarrow> reachable R0 sf)"
proof (rule play_game_loop.raw_induct [where P = "\<lambda>R strategies s r.
         reachable R s \<longrightarrow> (\<forall>w sf. r = Inr (w, sf) \<longrightarrow> reachable R sf)", OF _ assms],
       goal_cases)
  case (1 f R strategies s r)
  show ?case
  proof (intro impI allI)
    fix w sf
    assume re: "reachable R s" and r: "r = Inr (w, sf)"
    show "reachable R sf"
    proof (cases "game_over s")
      case True
      with 1(2) r re show ?thesis by simp
    next
      case False
      with 1(2) r obtain s1 where pr: "play_round R strategies s = Some (Inr s1)"
        by (auto split: option.splits sum.splits)
      note r1 = reachable_play_round [OF pr]
      show ?thesis
      proof (cases "find_winner 0 (players s1)")
        case (Some w')
        with 1(2) r False pr have "sf = s1\<lparr>game_over := True, winner := Some w'\<rparr>" by auto
        with r1 show ?thesis by (simp add: reachable.won)
      next
        case None
        with 1(2) r False pr have rec: "f R strategies (next_round s1) = Some (Inr (w, sf))"
          by (auto split: if_splits)
        from 1(1) [OF rec] reachable.advanced [OF r1] show ?thesis by blast
      qed
    qed
  qed
qed

lemma reachable_play_game:
  assumes "play_game R strategies k = Some (Inr (w, sf))"
  shows "reachable R sf"
proof -
  from assms obtain s0 where i: "initialize_game R strategies k = Inr s0"
    and l: "play_game_loop R strategies s0 = Some (Inr (w, sf))"
    by (auto simp: play_game_def split: sum.splits)
  from reachable_play_game_loop [OF l] reachable.start [OF i] show ?thesis by blast
qed

text \<open>
  Claim C10. In every reachable state each hand holds at most one number card of any
  value: the number values of a hand are distinct, so the count of number cards is the
  count of distinct values and \<open>has_flip7\<close> says that the hand holds exactly 7 number
  cards. The initial deal gives each player a single card; the states that
  \<open>play_round\<close>, the loop of \<open>play_game\<close> and \<open>play_game\<close> return are reachable
  (lemmas \<open>reachable_play_round\<close>, \<open>reachable_play_game_loop\<close>,
  \<open>reachable_play_game\<close>).
\<close>

theorem reachable_hand_distinct_numbers:
  assumes "reachable R s" and "p \<in> set (players s)"
  shows "distinct (get_number_values p) \<and>
         card (set (get_number_values p)) = length (get_number_cards p) \<and>
         (has_flip7 p \<longleftrightarrow> length (get_number_cards p) = 7) \<and>
         (\<forall>s0 q. deal_initial_cards R (s0\<lparr>players := map reset_player (players s0)\<rparr>) = Inr s \<and>
                 q \<in> set (players s) \<longrightarrow> length (cards q) = 1)"
proof -
  have d: "distinct (get_number_values p)"
    using reachable_hands [OF assms(1)] assms(2) by (auto simp: seats_def in_set_conv_nth)
  from distinct_values_count [OF d] d deal_initial_cards_one_card show ?thesis
    by (auto simp: has_flip7_def)
qed


theorem reachable_hand_distinct_numbers_witness:
  "reachable R_id seven_held_table \<and>
   players seven_held_table =
     [(player_holding seven_cards)\<lparr>round_score := 36, is_active := False\<rparr>] \<and>
   distinct (get_number_values ((player_holding seven_cards)\<lparr>round_score := 36, is_active := False\<rparr>)) \<and>
   has_flip7 ((player_holding seven_cards)\<lparr>round_score := 36, is_active := False\<rparr>) \<and>
   length (get_number_cards ((player_holding seven_cards)\<lparr>round_score := 36, is_active := False\<rparr>)) = 7"
proof -
  let ?p = "(player_holding seven_cards)\<lparr>round_score := 36, is_active := False\<rparr>"
  have r: "reachable R_id seven_held_table"
    using reachable_round_loop [OF reachable.dealt [OF seven_deck_dealt] seven_deck_round] .
  have p: "players seven_held_table = [?p]"
    by (simp add: seven_held_table_def table_def)
  have l: "length (get_number_cards ?p) = 7"
    by (simp add: get_number_cards_def player_holding_def seven_cards_def six_cards_def num_def
        number_card_def)
  from reachable_hand_distinct_numbers [OF r, of ?p] p l
  have "distinct (get_number_values ?p) \<and> has_flip7 ?p" by simp
  with r p l show ?thesis by simp
qed

section \<open>The forced stay\<close>





lemma stayed_fields [simp]:
  "length (players (stayed i s)) = length (players s)"
  "current_player_idx (stayed i s) = current_player_idx s"
  by (simp_all add: stayed_def)










end
